theory Spec2Isabelle
  imports Complex_Main "HOL-Library.Word"
begin

section \<open>Console characters of kmscon (src/console\_char.c)\<close>

text \<open>
  The file console\_char.c holds three layers: the character buffer
  \<^verbatim>\<open>struct kmscon_char\<close>, the cached glyph \<^verbatim>\<open>struct kmscon_glyph\<close> and the font
  \<^verbatim>\<open>struct kmscon_font\<close> with its hash table of glyphs. Each C function is
  embedded under its own name. A C function returns \<^verbatim>\<open>0\<close> or a negated errno
  code; the embedding returns \<open>Inr\<close> of the value written through the \<^verbatim>\<open>out\<close>
  pointer (or of \<open>()\<close>) for \<^verbatim>\<open>0\<close> and \<open>Inl e\<close> for \<^verbatim>\<open>-e\<close>. A pointer argument
  that the code tests against \<^verbatim>\<open>NULL\<close> is an \<open>option\<close> (\<open>None\<close> is \<^verbatim>\<open>NULL\<close>); the
  \<^verbatim>\<open>out\<close> pointer carries no data on entry and is a \<open>bool\<close> (\<open>True\<close>: not
  \<^verbatim>\<open>NULL\<close>). A function that writes to the object behind a pointer returns
  the object as it is afterwards, next to the return code. The conversions
  from UCS4 (\<^verbatim>\<open>kmscon_char_new_ucs4\<close>, \<^verbatim>\<open>kmscon_char_set_ucs4\<close>),
  \<^verbatim>\<open>kmscon_char_set\<close>, the reference count of the font and the Pango set-up
  of \<^verbatim>\<open>kmscon_font_new\<close> are not embedded; \<^verbatim>\<open>kmscon_font_new\<close> calls
  \<^verbatim>\<open>measure_width\<close> on the new font, whose table is empty.
\<close>

subsection \<open>Return codes and the allocator\<close>

datatype errno = EINVAL | ENOMEM | EFAULT

text \<open>
  \<^verbatim>\<open>malloc\<close> and \<^verbatim>\<open>realloc\<close> may return \<^verbatim>\<open>NULL\<close>. The allocator is the list
  of the outcomes of the coming requests, in order (\<open>True\<close>: the request is
  satisfied); each request consumes one outcome, and an exhausted list
  satisfies every request.
\<close>

type_synonym alloc = "bool list"

fun malloc :: "alloc \<Rightarrow> bool \<times> alloc" where
  "malloc [] = (True, [])"
| "malloc (b # bs) = (b, bs)"

type_synonym byte = "8 word"

text \<open>
  \<^verbatim>\<open>realloc(buf, n)\<close>: \<open>None\<close> for \<^verbatim>\<open>NULL\<close>, else a block of \<open>n\<close> bytes that
  starts with the old bytes. The bytes beyond the old block are indeterminate
  in C (here: zero); both callers overwrite them before they return.
\<close>

definition realloc :: "byte list \<Rightarrow> nat \<Rightarrow> alloc \<Rightarrow> byte list option \<times> alloc" where
  "realloc buf n a =
     (case malloc a of
        (False, a') \<Rightarrow> (None, a')
      | (True, a') \<Rightarrow> (Some (take n buf @ replicate (n - length buf) 0), a'))"

text \<open>
  \<^verbatim>\<open>memcpy(&dst[off], src, n)\<close> on byte lists. C requires \<open>n \<le> length src\<close>
  and \<open>off + n \<le> length dst\<close>.
\<close>

definition memcpy :: "byte list \<Rightarrow> nat \<Rightarrow> byte list \<Rightarrow> nat \<Rightarrow> byte list" where
  "memcpy dst off src n = take off dst @ take n src @ drop (off + n) dst"

text \<open>
  \<^verbatim>\<open>memcmp(s1, s2, n)\<close>: the difference of the first pair of bytes that
  differ, read as \<^verbatim>\<open>unsigned char\<close>, and \<^verbatim>\<open>0\<close> when the first \<open>n\<close> bytes
  agree. Reading past the end of a buffer is undefined in C (last equation);
  the callers stay in range.
\<close>

fun memcmp :: "byte list \<Rightarrow> byte list \<Rightarrow> nat \<Rightarrow> int" where
  "memcmp s1 s2 0 = 0"
| "memcmp (x # s1) (y # s2) (Suc n) =
     (if x = y then memcmp s1 s2 n else int (unat x) - int (unat y))"
| "memcmp s1 s2 (Suc n) = 0"

subsection \<open>struct kmscon\_char\<close>

text \<open>
  The fields \<^verbatim>\<open>buf\<close>, \<^verbatim>\<open>size\<close> and \<^verbatim>\<open>len\<close>; \<open>c_buf\<close> is the block that \<^verbatim>\<open>buf\<close>
  points to (\<open>c_size\<close> bytes). \<^verbatim>\<open>size_t\<close> is \<open>nat\<close>: the lengths are those of
  objects in memory, whose sums stay below \<open>2 ^ 64\<close>.
\<close>

record kmscon_char =
  c_buf :: "byte list"
  c_size :: nat
  c_len :: nat

definition KMSCON_CHAR_SIZE :: nat where
  "KMSCON_CHAR_SIZE = 6"

definition new_char :: "bool \<Rightarrow> nat \<Rightarrow> alloc \<Rightarrow> (errno + kmscon_char) \<times> alloc" where
  "new_char out sz a =
     (if \<not> out then (Inl EINVAL, a)
      else
        let sz' = (if sz = 0 then KMSCON_CHAR_SIZE else sz) in
        (case malloc a of
           (False, a1) \<Rightarrow> (Inl ENOMEM, a1)
         | (True, a1) \<Rightarrow>
             let ch = \<lparr>c_buf = [], c_size = 0, c_len = 0\<rparr>;
                 ch = ch\<lparr>c_size := sz'\<rparr>
             in (case malloc a1 of
                   (False, a2) \<Rightarrow> (Inl ENOMEM, a2)
                 | (True, a2) \<Rightarrow> (Inr (ch\<lparr>c_buf := replicate (c_size ch) 0\<rparr>), a2))))"

definition kmscon_char_new :: "bool \<Rightarrow> alloc \<Rightarrow> (errno + kmscon_char) \<times> alloc" where
  "kmscon_char_new out a = new_char out 0 a"

definition kmscon_char_set_u8 ::
  "kmscon_char option \<Rightarrow> byte list \<Rightarrow> nat \<Rightarrow> alloc \<Rightarrow> (errno + unit) \<times> kmscon_char option \<times> alloc" where
  "kmscon_char_set_u8 ch str len a =
     (case ch of
        None \<Rightarrow> (Inl EINVAL, None, a)
      | Some c \<Rightarrow>
          if c_size c < len then
            (case realloc (c_buf c) len a of
               (None, a') \<Rightarrow> (Inl ENOMEM, Some c, a')
             | (Some buf, a') \<Rightarrow>
                 let c = c\<lparr>c_buf := buf, c_size := len\<rparr> in
                 (Inr (), Some (c\<lparr>c_buf := memcpy (c_buf c) 0 str len, c_len := len\<rparr>), a'))
          else (Inr (), Some (c\<lparr>c_buf := memcpy (c_buf c) 0 str len, c_len := len\<rparr>), a))"

text \<open>
  \<^verbatim>\<open>kmscon_char_free\<close> releases memory only; the model has nothing to do.
  \<^verbatim>\<open>kmscon_char_new_u8\<close> and \<^verbatim>\<open>kmscon_char_dup\<close> pass a fresh buffer to
  \<^verbatim>\<open>kmscon_char_set_u8\<close>, which returns it written; the receiver is not
  \<^verbatim>\<open>NULL\<close> there, so the branch for \<open>None\<close> below is never taken.
\<close>

definition kmscon_char_new_u8 ::
  "bool \<Rightarrow> byte list option \<Rightarrow> nat \<Rightarrow> alloc \<Rightarrow> (errno + kmscon_char) \<times> alloc" where
  "kmscon_char_new_u8 out str len a =
     (if len = 0 then kmscon_char_new out a
      else
        (case str of
           None \<Rightarrow> (Inl EINVAL, a)
         | Some s \<Rightarrow>
             if \<not> out then (Inl EINVAL, a)
             else
               (case new_char True len a of
                  (Inl e, a1) \<Rightarrow> (Inl e, a1)
                | (Inr ch, a1) \<Rightarrow>
                    (case kmscon_char_set_u8 (Some ch) s len a1 of
                       (Inr u, Some ch', a2) \<Rightarrow> (Inr ch', a2)
                     | (Inr u, None, a2) \<Rightarrow> (Inl EINVAL, a2)
                     | (Inl e, r, a2) \<Rightarrow> (Inl e, a2)))))"

definition kmscon_char_dup ::
  "bool \<Rightarrow> kmscon_char option \<Rightarrow> alloc \<Rightarrow> (errno + kmscon_char) \<times> alloc" where
  "kmscon_char_dup out orig a =
     (case orig of
        None \<Rightarrow> (Inl EINVAL, a)
      | Some orig \<Rightarrow>
          if \<not> out then (Inl EINVAL, a)
          else
            (case new_char True (c_size orig) a of
               (Inl e, a1) \<Rightarrow> (Inl e, a1)
             | (Inr ch, a1) \<Rightarrow>
                 (case kmscon_char_set_u8 (Some ch) (c_buf orig) (c_len orig) a1 of
                    (Inr u, Some ch', a2) \<Rightarrow> (Inr ch', a2)
                  | (Inr u, None, a2) \<Rightarrow> (Inl EINVAL, a2)
                  | (Inl e, r, a2) \<Rightarrow> (Inl e, a2))))"

definition kmscon_char_reset :: "kmscon_char option \<Rightarrow> kmscon_char option" where
  "kmscon_char_reset ch = (case ch of None \<Rightarrow> None | Some c \<Rightarrow> Some (c\<lparr>c_len := 0\<rparr>))"

text \<open>
  \<^verbatim>\<open>kmscon_char_get_u8\<close> returns the pointer \<^verbatim>\<open>buf\<close>, that is the whole block;
  the bytes of the character are its first \<^verbatim>\<open>kmscon_char_get_len\<close> bytes.
\<close>

definition kmscon_char_get_u8 :: "kmscon_char option \<Rightarrow> byte list option" where
  "kmscon_char_get_u8 ch = (case ch of None \<Rightarrow> None | Some c \<Rightarrow> Some (c_buf c))"

definition kmscon_char_get_len :: "kmscon_char option \<Rightarrow> nat" where
  "kmscon_char_get_len ch = (case ch of None \<Rightarrow> 0 | Some c \<Rightarrow> c_len c)"

definition kmscon_char_append_u8 ::
  "kmscon_char option \<Rightarrow> byte list \<Rightarrow> nat \<Rightarrow> alloc \<Rightarrow> (errno + unit) \<times> kmscon_char option \<times> alloc" where
  "kmscon_char_append_u8 ch str len a =
     (case ch of
        None \<Rightarrow> (Inl EINVAL, None, a)
      | Some c \<Rightarrow>
          let nlen = c_len c + len in
          if c_size c < nlen then
            (case realloc (c_buf c) nlen a of
               (None, a') \<Rightarrow> (Inl EINVAL, Some c, a')
             | (Some buf, a') \<Rightarrow>
                 let c = c\<lparr>c_buf := buf, c_size := nlen\<rparr> in
                 (Inr (), Some (c\<lparr>c_buf := memcpy (c_buf c) (c_len c) str len,
                                 c_len := c_len c + len\<rparr>), a'))
          else (Inr (), Some (c\<lparr>c_buf := memcpy (c_buf c) (c_len c) str len,
                               c_len := c_len c + len\<rparr>), a))"

subsection \<open>Hash and equality of the hash table's keys\<close>

text \<open>
  \<^verbatim>\<open>guint\<close> is 32 bits wide. The loop adds \<^verbatim>\<open>ch->buf[i]\<close>, a \<^verbatim>\<open>char\<close>, which C
  promotes to \<^verbatim>\<open>int\<close> before the addition: sign-extended where \<^verbatim>\<open>char\<close> is
  signed (x86), zero-extended where it is unsigned (ARM). The parameter
  \<open>schar\<close> says which.
\<close>

definition char_to_guint :: "bool \<Rightarrow> byte \<Rightarrow> 32 word" where
  "char_to_guint schar b = (if schar then scast b else ucast b)"

function hash_loop :: "bool \<Rightarrow> kmscon_char \<Rightarrow> nat \<Rightarrow> 32 word \<Rightarrow> 32 word" where
  "hash_loop schar ch i val =
     (if i < c_len ch
      then hash_loop schar ch (Suc i) (val * 33 + char_to_guint schar (c_buf ch ! i))
      else val)"
  by pat_completeness auto
termination
  by (relation "measure (\<lambda>(schar, ch, i, val). c_len ch - i)") auto

declare hash_loop.simps [simp del]

definition kmscon_char_hash :: "bool \<Rightarrow> kmscon_char \<Rightarrow> 32 word" where
  "kmscon_char_hash schar key = hash_loop schar key 0 5381"

definition kmscon_char_equal :: "kmscon_char \<Rightarrow> kmscon_char \<Rightarrow> bool" where
  "kmscon_char_equal ch1 ch2 =
     (if c_len ch1 \<noteq> c_len ch2 then False
      else memcmp (c_buf ch1) (c_buf ch2) (c_len ch1) = 0)"

subsection \<open>The shaping engine (Pango) and the drawing target (cairo)\<close>

text \<open>
  Pango and cairo are libraries outside the repository. The model keeps of
  them what console\_char.c reads: of a layout its logical extent's width
  (\<^verbatim>\<open>rec.width\<close>, in Pango units), its line 0 with the runs of that line
  (\<open>None\<close>: no line) and its baseline; of a run its glyph string and its font.
  The width of a \<^verbatim>\<open>PangoRectangle\<close> and the result of
  \<^verbatim>\<open>pango_layout_get_baseline\<close> are C \<^verbatim>\<open>int\<close>s: 32-bit words, read as signed
  numbers with \<open>sint\<close>.
  A context says whether \<^verbatim>\<open>pango_layout_new\<close> yields a layout at all and
  which layout a text is shaped to. The reference counts of the engine's
  own objects (\<^verbatim>\<open>g_object_ref\<close>, \<^verbatim>\<open>g_object_unref\<close>) are not modelled.
\<close>

type_synonym pango_font = nat
type_synonym pango_glyph_string = "nat list"

record pango_run =
  run_glyphs :: pango_glyph_string
  run_font :: pango_font

record pango_layout =
  lay_extents_width :: "32 word"
  lay_line :: "pango_run list option"
  lay_baseline :: "32 word"

record pango_context =
  ctx_layout_new :: bool
  ctx_shape :: "byte list \<Rightarrow> pango_layout"

definition pango_layout_new :: "pango_context \<Rightarrow> pango_layout option" where
  "pango_layout_new ctx = (if ctx_layout_new ctx then Some (ctx_shape ctx []) else None)"

definition pango_layout_set_text ::
  "pango_context \<Rightarrow> pango_layout \<Rightarrow> byte list \<Rightarrow> nat \<Rightarrow> pango_layout" where
  "pango_layout_set_text ctx layout text len = ctx_shape ctx (take len text)"

text \<open>\<^verbatim>\<open>pango_glyph_string_copy\<close> allocates; \<open>None\<close> is its \<^verbatim>\<open>NULL\<close>.\<close>

definition pango_glyph_string_copy ::
  "pango_glyph_string \<Rightarrow> alloc \<Rightarrow> pango_glyph_string option \<times> alloc" where
  "pango_glyph_string_copy s a =
     (case malloc a of (False, a') \<Rightarrow> (None, a') | (True, a') \<Rightarrow> (Some s, a'))"

text \<open>
  Modelled from the spec: the macros \<^verbatim>\<open>PANGO_PIXELS\<close> and \<^verbatim>\<open>PANGO_PIXELS_CEIL\<close>
  of Pango's headers, which are not under src/. The spec calls the first
  rounding to whole pixels (plain rounding) and the second rounding up
  (ceiling); a Pango unit is 1/1024 of a pixel. Pango writes them
  \<^verbatim>\<open>((int)(d) + 512) >> 10\<close> and \<^verbatim>\<open>((int)(d) + 1023) >> 10\<close>: an addition of
  \<^verbatim>\<open>int\<close>s and an arithmetic shift to the right, which keeps the sign. Where
  the sum exceeds \<^verbatim>\<open>INT_MAX\<close> the addition is undefined in C; the addition of
  words wraps around there, as the compiled code does. The results are
  stored in \<^verbatim>\<open>unsigned int\<close> and \<^verbatim>\<open>uint32_t\<close> fields, a conversion that keeps
  the 32 bits.
\<close>

definition PANGO_PIXELS :: "32 word \<Rightarrow> 32 word" where
  "PANGO_PIXELS d = signed_drop_bit 10 (d + 512)"

definition PANGO_PIXELS_CEIL :: "32 word \<Rightarrow> 32 word" where
  "PANGO_PIXELS_CEIL d = signed_drop_bit 10 (d + 1023)"

text \<open>The cairo context is the list of the drawing commands issued on it.\<close>

datatype cairo_cmd =
  Move_to "32 word" "32 word"
| Update_layout pango_layout
| Show_layout pango_layout
| Show_glyph_string pango_font pango_glyph_string

type_synonym cairo_t = "cairo_cmd list"

subsection \<open>struct kmscon\_glyph\<close>

text \<open>
  \<^verbatim>\<open>type\<close> and the union \<^verbatim>\<open>src\<close> are one datatype: \<^verbatim>\<open>GLYPH_LAYOUT\<close> carries
  \<^verbatim>\<open>src.layout.layout\<close>, \<^verbatim>\<open>GLYPH_STR\<close> carries \<^verbatim>\<open>src.str.font\<close>, \<^verbatim>\<open>src.str.str\<close>
  and \<^verbatim>\<open>src.str.ascent\<close>. \<^verbatim>\<open>unsigned int\<close> and \<^verbatim>\<open>uint32_t\<close> are \<open>32 word\<close>; the
  reference count, a \<^verbatim>\<open>size_t\<close>, is a \<open>nat\<close> (it would take \<open>2 ^ 64\<close>
  references to wrap it).
\<close>

datatype glyph_type =
  GLYPH_NONE
| GLYPH_LAYOUT pango_layout
| GLYPH_STR pango_font pango_glyph_string "32 word"

record kmscon_glyph =
  g_ref :: nat
  g_ch :: kmscon_char
  g_width :: "32 word"
  g_type :: glyph_type

text \<open>
  Glyphs are shared between the hash table and the callers, so they live in
  a heap: the address of a glyph is its index in \<open>glyphs\<close>, \<open>None\<close> marks a
  freed block, and \<^verbatim>\<open>malloc\<close> returns the next index. The heap carries the
  allocator. Dereferencing a pointer to a freed block is undefined in C; the
  model leaves the heap as it is there.
\<close>

record heap =
  glyphs :: "kmscon_glyph option list"
  allocs :: alloc

definition glyph_at :: "heap \<Rightarrow> nat \<Rightarrow> kmscon_glyph option" where
  "glyph_at h p = (if p < length (glyphs h) then glyphs h ! p else None)"

text \<open>An assignment to fields of \<^verbatim>\<open>*glyph\<close>.\<close>

definition glyph_upd :: "nat \<Rightarrow> (kmscon_glyph \<Rightarrow> kmscon_glyph) \<Rightarrow> heap \<Rightarrow> heap" where
  "glyph_upd p u h =
     (case glyph_at h p of
        None \<Rightarrow> h
      | Some g \<Rightarrow> h\<lparr>glyphs := (glyphs h)[p := Some (u g)]\<rparr>)"

definition glyph_free :: "nat \<Rightarrow> heap \<Rightarrow> heap" where
  "glyph_free p h = h\<lparr>glyphs := (glyphs h)[p := None]\<rparr>"

text \<open>
  \<^verbatim>\<open>kmscon_glyph_new\<close> leaves \<^verbatim>\<open>width\<close> and \<^verbatim>\<open>src\<close> of the fresh block unwritten;
  \<^verbatim>\<open>kmscon_glyph_reset\<close> or \<^verbatim>\<open>kmscon_glyph_set\<close> writes \<^verbatim>\<open>width\<close> before anything
  reads it, and the model holds \<open>0\<close> until then. The block enters the heap
  when the function succeeds; on the error path it is freed again.
\<close>

definition kmscon_glyph_new ::
  "bool \<Rightarrow> kmscon_char option \<Rightarrow> heap \<Rightarrow> (errno + nat) \<times> heap" where
  "kmscon_glyph_new out ch h =
     (case ch of
        None \<Rightarrow> (Inl EINVAL, h)
      | Some c \<Rightarrow>
          if \<not> out \<or> c_len c = 0 then (Inl EINVAL, h)
          else
            (case malloc (allocs h) of
               (False, a1) \<Rightarrow> (Inl ENOMEM, h\<lparr>allocs := a1\<rparr>)
             | (True, a1) \<Rightarrow>
                 (case kmscon_char_dup True (Some c) a1 of
                    (Inl e, a2) \<Rightarrow> (Inl e, h\<lparr>allocs := a2\<rparr>)
                  | (Inr d, a2) \<Rightarrow>
                      (Inr (length (glyphs h)),
                       h\<lparr>glyphs := glyphs h @
                            [Some \<lparr>g_ref = 1, g_ch = d, g_width = 0, g_type = GLYPH_NONE\<rparr>],
                         allocs := a2\<rparr>))))"

text \<open>
  The \<^verbatim>\<open>switch\<close> of \<^verbatim>\<open>kmscon_glyph_reset\<close> releases the engine's objects of the
  current variant, which the model does not count.
\<close>

definition kmscon_glyph_reset :: "nat option \<Rightarrow> heap \<Rightarrow> heap" where
  "kmscon_glyph_reset glyph h =
     (case glyph of
        None \<Rightarrow> h
      | Some p \<Rightarrow> glyph_upd p (\<lambda>g. g\<lparr>g_type := GLYPH_NONE, g_width := 0\<rparr>) h)"

definition kmscon_glyph_ref :: "nat option \<Rightarrow> heap \<Rightarrow> heap" where
  "kmscon_glyph_ref glyph h =
     (case glyph of
        None \<Rightarrow> h
      | Some p \<Rightarrow> glyph_upd p (\<lambda>g. g\<lparr>g_ref := g_ref g + 1\<rparr>) h)"

definition kmscon_glyph_unref :: "nat option \<Rightarrow> heap \<Rightarrow> heap" where
  "kmscon_glyph_unref glyph h =
     (case glyph of
        None \<Rightarrow> h
      | Some p \<Rightarrow>
          (case glyph_at h p of
             None \<Rightarrow> h
           | Some g \<Rightarrow>
               if g_ref g = 0 then h
               else if g_ref g - 1 \<noteq> 0 then glyph_upd p (\<lambda>g. g\<lparr>g_ref := g_ref g - 1\<rparr>) h
               else glyph_free p
                      (kmscon_glyph_reset (Some p)
                         (glyph_upd p (\<lambda>g. g\<lparr>g_ref := g_ref g - 1\<rparr>) h))))"

subsection \<open>struct kmscon\_font and its hash table\<close>

text \<open>
  The \<^verbatim>\<open>GHashTable\<close> of GLib is the list of its entries (key, address of the
  glyph). GLib finds the entry whose key \<^verbatim>\<open>kmscon_char_equal\<close> accepts, called
  with the stored key first; the hash only selects where to search, and keys
  that are equal have equal hashes (lemma \<open>kmscon_char_equal_hash\<close>).
  \<^verbatim>\<open>g_hash_table_insert\<close> replaces the value of a key that is present and
  adds an entry otherwise; GLib aborts the process when it runs out of
  memory, so the insertion has no error path. On a replacement GLib calls
  the destroy functions on the old value and on the key passed in, which the
  model leaves out: \<^verbatim>\<open>kmscon_font_lookup\<close> inserts after a miss only.
\<close>

type_synonym ghash_table = "(kmscon_char \<times> nat) list"

fun g_hash_table_lookup :: "ghash_table \<Rightarrow> kmscon_char \<Rightarrow> nat option" where
  "g_hash_table_lookup [] key = None"
| "g_hash_table_lookup ((k, v) # t) key =
     (if kmscon_char_equal k key then Some v else g_hash_table_lookup t key)"

fun g_hash_table_insert :: "ghash_table \<Rightarrow> kmscon_char \<Rightarrow> nat \<Rightarrow> ghash_table" where
  "g_hash_table_insert [] key val = [(key, val)]"
| "g_hash_table_insert ((k, v) # t) key val =
     (if kmscon_char_equal k key then (k, val) # t
      else (k, v) # g_hash_table_insert t key val)"

record kmscon_font =
  f_ref :: nat
  f_width :: "32 word"
  f_height :: "32 word"
  f_glyphs :: ghash_table
  f_ctx :: pango_context

definition kmscon_glyph_set ::
  "nat option \<Rightarrow> kmscon_font option \<Rightarrow> heap \<Rightarrow> (errno + unit) \<times> heap" where
  "kmscon_glyph_set glyph font h =
     (case (glyph, font) of
        (Some p, Some f) \<Rightarrow>
          (case glyph_at h p of
             None \<Rightarrow> (Inl EINVAL, h)
           | Some g \<Rightarrow>
               (case pango_layout_new (f_ctx f) of
                  None \<Rightarrow> (Inl EINVAL, h)
                | Some layout0 \<Rightarrow>
                    let layout = pango_layout_set_text (f_ctx f) layout0
                                   (c_buf (g_ch g)) (c_len (g_ch g));
                        rec_width = lay_extents_width layout;
                        as_layout =
                          (Inr (),
                           glyph_upd p (\<lambda>g. g\<lparr>g_width := PANGO_PIXELS rec_width\<rparr>)
                             (glyph_upd p (\<lambda>g. g\<lparr>g_type := GLYPH_LAYOUT layout\<rparr>)
                                (kmscon_glyph_reset (Some p) h)))
                    in
                    (case lay_line layout of
                       None \<Rightarrow> as_layout
                     | Some [] \<Rightarrow> as_layout
                     | Some (tmp # next) \<Rightarrow>
                         if next \<noteq> [] then as_layout
                         else
                           (case pango_glyph_string_copy (run_glyphs tmp) (allocs h) of
                              (None, a1) \<Rightarrow> (Inl ENOMEM, h\<lparr>allocs := a1\<rparr>)
                            | (Some str, a1) \<Rightarrow>
                                (Inr (),
                                 glyph_upd p
                                   (\<lambda>g. g\<lparr>g_width := PANGO_PIXELS rec_width\<rparr>)
                                   (glyph_upd p
                                      (\<lambda>g. g\<lparr>g_type := GLYPH_STR (run_font tmp) str
                                          (PANGO_PIXELS_CEIL (lay_baseline layout))\<rparr>)
                                      (kmscon_glyph_reset (Some p) (h\<lparr>allocs := a1\<rparr>))))))))
      | _ \<Rightarrow> (Inl EINVAL, h))"

definition kmscon_font_get_width :: "kmscon_font option \<Rightarrow> 32 word" where
  "kmscon_font_get_width font = (case font of None \<Rightarrow> 0 | Some f \<Rightarrow> f_width f)"

definition kmscon_font_get_height :: "kmscon_font option \<Rightarrow> 32 word" where
  "kmscon_font_get_height font = (case font of None \<Rightarrow> 0 | Some f \<Rightarrow> f_height f)"

text \<open>
  \<^verbatim>\<open>kmscon_font_lookup\<close>: the labels \<^verbatim>\<open>err_glyph\<close> and \<^verbatim>\<open>err_char\<close> release the
  glyph and the duplicated key; the table is written on the success path
  only.
\<close>

definition kmscon_font_lookup ::
  "kmscon_font option \<Rightarrow> kmscon_char option \<Rightarrow> bool \<Rightarrow> heap
     \<Rightarrow> (errno + nat) \<times> kmscon_font option \<times> heap" where
  "kmscon_font_lookup font key out h =
     (case (font, key) of
        (Some f, Some k) \<Rightarrow>
          if \<not> out then (Inl EINVAL, font, h)
          else
            (case g_hash_table_lookup (f_glyphs f) k of
               Some p \<Rightarrow> (Inr p, font, kmscon_glyph_ref (Some p) h)
             | None \<Rightarrow>
                 (case kmscon_char_dup True (Some k) (allocs h) of
                    (Inl e, a1) \<Rightarrow> (Inl e, font, h\<lparr>allocs := a1\<rparr>)
                  | (Inr ch, a1) \<Rightarrow>
                      (case kmscon_glyph_new True (Some k) (h\<lparr>allocs := a1\<rparr>) of
                         (Inl e, h2) \<Rightarrow> (Inl e, font, h2)
                       | (Inr p, h2) \<Rightarrow>
                           (case kmscon_glyph_set (Some p) font h2 of
                              (Inl e, h3) \<Rightarrow> (Inl e, font, kmscon_glyph_unref (Some p) h3)
                            | (Inr u, h3) \<Rightarrow>
                                (Inr p,
                                 Some (f\<lparr>f_glyphs := g_hash_table_insert (f_glyphs f) ch p\<rparr>),
                                 kmscon_glyph_ref (Some p) h3)))))
      | _ \<Rightarrow> (Inl EINVAL, font, h))"

text \<open>
  \<^verbatim>\<open>kmscon_font_draw\<close>: the \<^verbatim>\<open>switch\<close> assigns \<^verbatim>\<open>ret\<close> in its default branch,
  and the function ends with \<^verbatim>\<open>return 0\<close> after the \<^verbatim>\<open>kmscon_glyph_unref\<close>.
  \<open>draw_dispatch\<close> is the \<^verbatim>\<open>switch\<close>: the value of \<^verbatim>\<open>ret\<close> after it and the
  commands issued.
\<close>

definition draw_dispatch ::
  "kmscon_glyph \<Rightarrow> cairo_t \<Rightarrow> 32 word \<Rightarrow> 32 word \<Rightarrow> (errno + unit) \<times> cairo_t" where
  "draw_dispatch g cr x y =
     (case g_type g of
        GLYPH_LAYOUT layout \<Rightarrow>
          (Inr (), cr @ [Move_to x y, Update_layout layout, Show_layout layout])
      | GLYPH_STR fnt str ascent \<Rightarrow>
          (Inr (), cr @ [Move_to x (y + ascent), Show_glyph_string fnt str])
      | GLYPH_NONE \<Rightarrow> (Inl EFAULT, cr))"

definition kmscon_font_draw ::
  "kmscon_font option \<Rightarrow> kmscon_char option \<Rightarrow> cairo_t option \<Rightarrow> 32 word \<Rightarrow> 32 word \<Rightarrow> heap
     \<Rightarrow> (errno + unit) \<times> kmscon_font option \<times> cairo_t option \<times> heap" where
  "kmscon_font_draw font ch dcr x y h =
     (case (font, ch, dcr) of
        (Some f, Some c, Some cr) \<Rightarrow>
          (case kmscon_font_lookup font ch True h of
             (Inl e, font1, h1) \<Rightarrow> (Inl e, font1, dcr, h1)
           | (Inr p, font1, h1) \<Rightarrow>
               (case glyph_at h1 p of
                  None \<Rightarrow> (Inr (), font1, dcr, h1)
                | Some g \<Rightarrow>
                    (case draw_dispatch g cr x y of
                       (ret, cr1) \<Rightarrow>
                         (Inr (), font1, Some cr1, kmscon_glyph_unref (Some p) h1))))
      | _ \<Rightarrow> (Inl EINVAL, font, dcr, h))"

text \<open>
  \<^verbatim>\<open>measure_width\<close> declares \<^verbatim>\<open>unsigned int i, num, width\<close> and assigns
  \<^verbatim>\<open>num = 0\<close> only: the loop reads \<^verbatim>\<open>width\<close> as the stack left it. That value
  is the parameter \<open>width0\<close>. \<open>measure_loop\<close> is the \<^verbatim>\<open>for\<close> loop from \<open>i\<close> on.
\<close>

function measure_loop ::
  "nat \<Rightarrow> 32 word \<Rightarrow> 32 word \<Rightarrow> kmscon_char option \<Rightarrow> kmscon_font option \<Rightarrow> heap
     \<Rightarrow> 32 word \<times> 32 word \<times> kmscon_char option \<times> kmscon_font option \<times> heap" where
  "measure_loop i num width ch font h =
     (if i < 127 then
        (case kmscon_char_set_u8 ch [of_nat i] 1 (allocs h) of
           (Inl e, ch1, a1) \<Rightarrow> measure_loop (Suc i) num width ch1 font (h\<lparr>allocs := a1\<rparr>)
         | (Inr u, ch1, a1) \<Rightarrow>
             (case kmscon_font_lookup font ch1 True (h\<lparr>allocs := a1\<rparr>) of
                (Inl e, font1, h1) \<Rightarrow> measure_loop (Suc i) num width ch1 font1 h1
              | (Inr p, font1, h1) \<Rightarrow>
                  (case glyph_at h1 p of
                     None \<Rightarrow> measure_loop (Suc i) num width ch1 font1 h1
                   | Some g \<Rightarrow>
                       if 0 < g_width g
                       then measure_loop (Suc i) (num + 1) (width + g_width g) ch1 font1
                              (kmscon_glyph_unref (Some p) h1)
                       else measure_loop (Suc i) num width ch1 font1
                              (kmscon_glyph_unref (Some p) h1))))
      else (num, width, ch, font, h))"
  by pat_completeness auto
termination
  by (relation "measure (\<lambda>(i, num, width, ch, font, h). 127 - i)") auto

declare measure_loop.simps [simp del]

definition measure_width ::
  "kmscon_font option \<Rightarrow> 32 word \<Rightarrow> heap \<Rightarrow> (errno + unit) \<times> kmscon_font option \<times> heap" where
  "measure_width font width0 h =
     (case font of
        None \<Rightarrow> (Inl EINVAL, font, h)
      | Some f \<Rightarrow>
          (case kmscon_char_new True (allocs h) of
             (Inl e, a1) \<Rightarrow> (Inl e, font, h\<lparr>allocs := a1\<rparr>)
           | (Inr ch, a1) \<Rightarrow>
               (case measure_loop 0 0 width0 (Some ch) font (h\<lparr>allocs := a1\<rparr>) of
                  (num, width, ch1, font1, h1) \<Rightarrow>
                    if num = 0 then (Inl EFAULT, font1, h1)
                    else (Inr (),
                          map_option (\<lambda>f. f\<lparr>f_width := width div num\<rparr>) font1, h1))))"

subsection \<open>Notions of the specification\<close>

text \<open>
  The bytes of a character are the first \<^verbatim>\<open>len\<close> bytes of its block. A
  constructed buffer keeps \<^verbatim>\<open>len\<close> within \<^verbatim>\<open>size\<close>, the length of the block.
\<close>

definition content :: "kmscon_char \<Rightarrow> byte list" where
  "content c = take (c_len c) (c_buf c)"

definition char_ok :: "kmscon_char \<Rightarrow> bool" where
  "char_ok c = (c_len c \<le> c_size c \<and> length (c_buf c) = c_size c)"

text \<open>
  The hash as the specification words it: seed 5381, then \<open>h * 33 + byte\<close>
  for each byte of the content in order, in \<^verbatim>\<open>guint\<close> arithmetic, a byte
  being its value from 0 to 255.
\<close>

definition spec_djb2 :: "byte list \<Rightarrow> 32 word" where
  "spec_djb2 bs = foldl (\<lambda>h b. h * 33 + ucast b) 5381 bs"

text \<open>
  The specification names five error kinds; the code has three return
  codes. By section 7 of the specification \<^verbatim>\<open>-EINVAL\<close> (null pointer, empty
  key, height 0) is InvalidArgument and \<^verbatim>\<open>-ENOMEM\<close> is OutOfMemory; the
  other three kinds are what the code returns as \<^verbatim>\<open>-EFAULT\<close>: EncodingFailure
  from the conversion of code points, ShapingFailure from \<^verbatim>\<open>measure_width\<close>
  without a usable glyph, UnsupportedState from the default branch of the
  draw. A failure is of a kind when the code returns the code of that kind.
\<close>

datatype error_kind =
  InvalidArgument | OutOfMemory | EncodingFailure | ShapingFailure | UnsupportedState

fun errno_of :: "error_kind \<Rightarrow> errno" where
  "errno_of InvalidArgument = EINVAL"
| "errno_of OutOfMemory = ENOMEM"
| "errno_of EncodingFailure = EFAULT"
| "errno_of ShapingFailure = EFAULT"
| "errno_of UnsupportedState = EFAULT"

text \<open>
  The state of a font that the code maintains: every key of the table is a
  constructed, non-empty buffer; every value is the address of a live glyph
  that is shaped and counts at least the table's reference; no glyph is
  stored twice. The table of a new font is empty, and \<^verbatim>\<open>kmscon_font_lookup\<close>
  and \<^verbatim>\<open>kmscon_font_draw\<close> keep the property, whether they succeed or fail
  (lemmas \<open>kmscon_font_lookup_font_ok\<close>, \<open>kmscon_font_lookup_error_font_ok\<close>,
  \<open>kmscon_font_draw_font_ok\<close>).
\<close>

definition entry_ok :: "heap \<Rightarrow> kmscon_char \<times> nat \<Rightarrow> bool" where
  "entry_ok h e =
     (case e of (k, p) \<Rightarrow>
        char_ok k \<and> c_len k \<noteq> 0 \<and>
        (case glyph_at h p of
           None \<Rightarrow> False
         | Some g \<Rightarrow> 0 < g_ref g \<and> g_type g \<noteq> GLYPH_NONE))"

definition font_ok :: "kmscon_font \<Rightarrow> heap \<Rightarrow> bool" where
  "font_ok f h = (list_all (entry_ok h) (f_glyphs f) \<and> distinct (map snd (f_glyphs f)))"

text \<open>
  \<^verbatim>\<open>kmscon_char_dup\<close> allocates the structure and its block: whether these
  two requests are satisfied.
\<close>

definition dup_allocs_ok :: "alloc \<Rightarrow> bool" where
  "dup_allocs_ok a = (fst (malloc a) \<and> fst (malloc (snd (malloc a))))"

text \<open>
  The width measurement probes the one-byte keys 0 to 126. \<open>probe_width\<close> is
  the width in pixels that \<^verbatim>\<open>kmscon_glyph_set\<close> gives the glyph of probe \<open>i\<close>;
  \<open>probe_widths\<close> lists the non-zero ones from probe \<open>i\<close> on, the glyphs that
  the specification averages over. \<open>probed i\<close> says that a table holds keys
  of probes below \<open>i\<close> only.
\<close>

definition probe_width :: "pango_context \<Rightarrow> nat \<Rightarrow> 32 word" where
  "probe_width ctx i =
     PANGO_PIXELS (lay_extents_width (ctx_shape ctx [of_nat i]))"

definition probe_widths :: "pango_context \<Rightarrow> nat \<Rightarrow> 32 word list" where
  "probe_widths ctx i = filter (\<lambda>w. 0 < w) (map (probe_width ctx) [i..<127])"

definition probed :: "nat \<Rightarrow> ghash_table \<Rightarrow> bool" where
  "probed i t = list_all (\<lambda>e. \<exists>j<i. content (fst e) = [of_nat j]) t"

subsection \<open>Concrete inputs\<close>

text \<open>
  An engine that shapes every text to one run of font 1, 8500 units wide
  (8.3 pixels) with the baseline at 12300 units (12.01 pixels); a new font
  of height 16 with it; a heap without glyphs whose allocator satisfies
  every request; the key \<open>A\<close> in a buffer of the default size, and an empty
  key.
\<close>

definition ex_ctx :: pango_context where
  "ex_ctx = \<lparr>ctx_layout_new = True,
             ctx_shape = (\<lambda>t. \<lparr>lay_extents_width = 8500,
                                lay_line = Some [\<lparr>run_glyphs = map unat t, run_font = 1\<rparr>],
                                lay_baseline = 12300\<rparr>)\<rparr>"

definition ex_font :: kmscon_font where
  "ex_font = \<lparr>f_ref = 1, f_width = 0, f_height = 16, f_glyphs = [], f_ctx = ex_ctx\<rparr>"

definition ex_heap :: heap where
  "ex_heap = \<lparr>glyphs = [], allocs = []\<rparr>"

definition ex_key :: kmscon_char where
  "ex_key = \<lparr>c_buf = [65, 0, 0, 0, 0, 0], c_size = 6, c_len = 1\<rparr>"

definition ex_empty :: kmscon_char where
  "ex_empty = \<lparr>c_buf = [0, 0, 0, 0, 0, 0], c_size = 6, c_len = 0\<rparr>"

text \<open>
  A heap whose only glyph is the fresh, unshaped glyph of the key \<open>A\<close>, and
  the heap with that glyph shaped and referenced by the table and by one
  caller; the font whose table holds the glyph at address 0 under the key
  \<open>A\<close>; and the font whose context yields no layout.
\<close>

definition ex_heap_unset :: heap where
  "ex_heap_unset =
     \<lparr>glyphs = [Some \<lparr>g_ref = 1, g_ch = ex_key, g_width = 0, g_type = GLYPH_NONE\<rparr>],
      allocs = []\<rparr>"

definition ex_heap_A :: heap where
  "ex_heap_A =
     \<lparr>glyphs = [Some \<lparr>g_ref = 2, g_ch = ex_key, g_width = 8, g_type = GLYPH_STR 1 [65] 13\<rparr>],
      allocs = []\<rparr>"

definition ex_font_A :: kmscon_font where
  "ex_font_A = ex_font\<lparr>f_glyphs := [(ex_key, 0)]\<rparr>"

definition ex_font_no_layout :: kmscon_font where
  "ex_font_no_layout = ex_font\<lparr>f_ctx := ex_ctx\<lparr>ctx_layout_new := False\<rparr>\<rparr>"

text \<open>
  A second buffer with the content \<open>A\<close>, of another size and with another
  byte behind the content.
\<close>

definition ex_key2 :: kmscon_char where
  "ex_key2 = \<lparr>c_buf = [65, 9], c_size = 2, c_len = 1\<rparr>"

text \<open>The key of U+00E9 in UTF-8, two bytes from 128 on.\<close>

definition ex_key_e9 :: kmscon_char where
  "ex_key_e9 = \<lparr>c_buf = [195, 169], c_size = 2, c_len = 2\<rparr>"

section \<open>Properties of the character buffer\<close>

lemma memcmp_take:
  "n \<le> length s1 \<Longrightarrow> n \<le> length s2 \<Longrightarrow> (memcmp s1 s2 n = 0) = (take n s1 = take n s2)"
proof (induction s1 s2 n rule: memcmp.induct)
  case (2 x s1 y s2 n)
  have "x \<noteq> y \<Longrightarrow> int (unat x) - int (unat y) \<noteq> 0"
    by (simp add: word_uint_eq_iff)
  with 2 show ?case by auto
qed auto

lemma kmscon_char_equal_content:
  assumes "char_ok ch1" "char_ok ch2"
  shows "kmscon_char_equal ch1 ch2 = (content ch1 = content ch2)"
proof (cases "c_len ch1 = c_len ch2")
  case True
  with assms have "(memcmp (c_buf ch1) (c_buf ch2) (c_len ch1) = 0) =
      (take (c_len ch1) (c_buf ch1) = take (c_len ch1) (c_buf ch2))"
    by (intro memcmp_take) (simp_all add: char_ok_def)
  with True show ?thesis by (simp add: kmscon_char_equal_def content_def)
next
  case False
  from assms have "length (content ch1) = c_len ch1" "length (content ch2) = c_len ch2"
    by (simp_all add: char_ok_def content_def)
  with False have "content ch1 \<noteq> content ch2" by metis
  with False show ?thesis by (simp add: kmscon_char_equal_def)
qed

lemma hash_loop_fold:
  "i \<le> c_len ch \<Longrightarrow> c_len ch \<le> length (c_buf ch) \<Longrightarrow>
   hash_loop schar ch i val =
     foldl (\<lambda>h b. h * 33 + char_to_guint schar b) val (drop i (take (c_len ch) (c_buf ch)))"
proof (induction schar ch i val rule: hash_loop.induct)
  case (1 schar ch i val)
  show ?case
  proof (cases "i < c_len ch")
    case True
    have d: "drop i (take (c_len ch) (c_buf ch)) =
        (c_buf ch ! i) # drop (Suc i) (take (c_len ch) (c_buf ch))"
    proof -
      have "i < length (take (c_len ch) (c_buf ch))" using True 1(3) by simp
      then have "drop i (take (c_len ch) (c_buf ch)) =
         (take (c_len ch) (c_buf ch) ! i) # drop (Suc i) (take (c_len ch) (c_buf ch))"
        by (rule Cons_nth_drop_Suc [symmetric])
      then show ?thesis using True by simp
    qed
    have step: "hash_loop schar ch i val =
        hash_loop schar ch (Suc i) (val * 33 + char_to_guint schar (c_buf ch ! i))"
      using True by (subst hash_loop.simps) simp
    have "hash_loop schar ch (Suc i) (val * 33 + char_to_guint schar (c_buf ch ! i)) =
       foldl (\<lambda>h b. h * 33 + char_to_guint schar b) (val * 33 + char_to_guint schar (c_buf ch ! i))
         (drop (Suc i) (take (c_len ch) (c_buf ch)))"
      using True 1(3) by (intro 1(1)) simp_all
    then show ?thesis
      unfolding step by (subst d) simp
  next
    case False
    then have "hash_loop schar ch i val = val" by (subst hash_loop.simps) simp
    then show ?thesis using False 1(2) by simp
  qed
qed

lemma kmscon_char_hash_fold:
  "char_ok ch \<Longrightarrow>
   kmscon_char_hash schar ch =
     foldl (\<lambda>h b. h * 33 + char_to_guint schar b) 5381 (content ch)"
  by (simp add: kmscon_char_hash_def content_def char_ok_def hash_loop_fold)

lemma kmscon_char_equal_hash:
  "char_ok ch1 \<Longrightarrow> char_ok ch2 \<Longrightarrow> kmscon_char_equal ch1 ch2 \<Longrightarrow>
   kmscon_char_hash schar ch1 = kmscon_char_hash schar ch2"
  by (simp add: kmscon_char_hash_fold kmscon_char_equal_content)

text \<open>
  The value of a \<^verbatim>\<open>signed char\<close>: the byte below 128, the byte less 256 from
  128 on.
\<close>

lemma sint_byte:
  fixes b :: byte
  shows "sint b = (if b < 128 then uint b else uint b - 256)"
proof -
  have u: "0 \<le> uint b" "uint b < 256" using uint_lt2p [of b] by simp_all
  have n: "uint (128 :: byte) = 128" by simp
  have lt: "(b < 128) = (uint b < 128)" by (simp only: word_less_alt n)
  have "sint b = signed_take_bit 7 (uint b)"
    using sint_uint [of b] by simp
  also have "\<dots> = take_bit (Suc 7) (uint b + 2 ^ 7) - 2 ^ 7"
    by (rule signed_take_bit_eq_take_bit_shift)
  also have "\<dots> = (uint b + 128) mod 256 - 128"
    by (simp only: take_bit_eq_mod) simp
  finally have s: "sint b = (uint b + 128) mod 256 - 128" .
  show ?thesis
  proof (cases "uint b < 128")
    case True
    have e: "uint b + 128 = 256 * 0 + (uint b + 128)" by simp
    have "(uint b + 128) mod 256 = uint b + 128"
      by (rule int_mod_pos_eq [OF e]) (use u True in simp_all)
    with True show ?thesis by (simp only: s lt) simp
  next
    case False
    have e: "uint b + 128 = 256 * 1 + (uint b - 128)" by simp
    have "(uint b + 128) mod 256 = uint b - 128"
      by (rule int_mod_pos_eq [OF e]) (use u False in simp_all)
    with False show ?thesis by (simp only: s lt) simp
  qed
qed

lemma scast_byte:
  fixes b :: byte
  shows "(scast b :: 32 word) = (if b < 128 then ucast b else ucast b - 256)"
proof -
  have "(scast b :: 32 word) = word_of_int (sint b)" by (rule scast_eq)
  also have "\<dots> = (if b < 128 then word_of_int (uint b) else word_of_int (uint b - 256))"
    by (simp only: sint_byte if_distrib [of word_of_int])
  also have "\<dots> = (if b < 128 then ucast b else ucast b - 256)"
    by (simp only: ucast_eq wi_hom_sub) simp
  finally show ?thesis .
qed

lemma char_to_guint_value:
  "char_to_guint schar b = (if schar \<and> 128 \<le> b then ucast b - 256 else ucast b)"
  by (simp add: char_to_guint_def scast_byte not_less [symmetric])

lemma foldl_djb2_cong:
  fixes f g :: "byte \<Rightarrow> 32 word"
  shows "list_all (\<lambda>b. f b = g b) bs \<Longrightarrow>
   foldl (\<lambda>h b. h * 33 + f b) a bs = foldl (\<lambda>h b. h * 33 + g b) a bs"
  by (induction bs arbitrary: a) simp_all

lemma kmscon_char_hash_spec_djb2:
  assumes "char_ok ch" and "\<not> schar \<or> list_all (\<lambda>b. b < 128) (content ch)"
  shows "kmscon_char_hash schar ch = spec_djb2 (content ch)"
proof -
  have "list_all (\<lambda>b. char_to_guint schar b = ucast b) (content ch)"
  proof (cases schar)
    case False
    then show ?thesis by (simp add: char_to_guint_def list_all_iff)
  next
    case True
    with assms(2) have "list_all (\<lambda>b. b < 128) (content ch)" by simp
    then show ?thesis
      by (auto simp: list_all_iff char_to_guint_value)
  qed
  then show ?thesis
    unfolding kmscon_char_hash_fold [OF assms(1)] spec_djb2_def
    by (rule foldl_djb2_cong)
qed

lemma new_char_Inr:
  "new_char True sz a = (Inr c, a') \<Longrightarrow>
   c = \<lparr>c_buf = replicate (if sz = 0 then KMSCON_CHAR_SIZE else sz) 0,
        c_size = (if sz = 0 then KMSCON_CHAR_SIZE else sz), c_len = 0\<rparr>"
  by (auto simp: new_char_def Let_def split: prod.splits bool.splits)

lemma new_char_error:
  "new_char True sz a = (Inl e, a') \<Longrightarrow> e = ENOMEM"
  by (auto simp: new_char_def Let_def split: prod.splits bool.splits)

lemma new_char_mallocs:
  "malloc a = (True, a1) \<Longrightarrow> malloc a1 = (True, a2) \<Longrightarrow>
   new_char True sz a =
     (Inr \<lparr>c_buf = replicate (if sz = 0 then KMSCON_CHAR_SIZE else sz) 0,
           c_size = (if sz = 0 then KMSCON_CHAR_SIZE else sz), c_len = 0\<rparr>, a2)"
  by (simp add: new_char_def Let_def)

lemma kmscon_char_set_u8_fits:
  "len \<le> c_size c \<Longrightarrow>
   kmscon_char_set_u8 (Some c) str len a =
     (Inr (), Some (c\<lparr>c_buf := memcpy (c_buf c) 0 str len, c_len := len\<rparr>), a)"
  by (simp add: kmscon_char_set_u8_def)

lemma kmscon_char_set_u8_realloc_fails:
  "c_size c < len \<Longrightarrow> malloc a = (False, a') \<Longrightarrow>
   kmscon_char_set_u8 (Some c) str len a = (Inl ENOMEM, Some c, a')"
  by (simp add: kmscon_char_set_u8_def realloc_def)

lemma kmscon_char_append_u8_realloc_fails:
  "c_size c < c_len c + len \<Longrightarrow> malloc a = (False, a') \<Longrightarrow>
   kmscon_char_append_u8 (Some c) str len a = (Inl EINVAL, Some c, a')"
  by (simp add: kmscon_char_append_u8_def realloc_def)

lemma kmscon_char_dup_Inr:
  assumes "char_ok orig" "kmscon_char_dup True (Some orig) a = (Inr d, a')"
  shows "char_ok d \<and> content d = content orig \<and> c_len d = c_len orig"
proof -
  from assms(2) obtain ch a1 where n: "new_char True (c_size orig) a = (Inr ch, a1)"
    by (auto simp: kmscon_char_dup_def split: prod.splits sum.splits)
  note c = new_char_Inr [OF n]
  have fits: "c_len orig \<le> c_size ch" using assms(1) c by (auto simp: char_ok_def)
  from assms(2) n have d: "d = ch\<lparr>c_buf := memcpy (c_buf ch) 0 (c_buf orig) (c_len orig), c_len := c_len orig\<rparr>"
    by (simp add: kmscon_char_dup_def kmscon_char_set_u8_fits [OF fits])
  show ?thesis using assms(1) c
    by (auto simp: d char_ok_def content_def memcpy_def)
qed

lemma kmscon_char_new_u8_Inr:
  assumes "kmscon_char_new_u8 True (Some s) (length s) a = (Inr c, a')"
  shows "char_ok c \<and> content c = s \<and> c_len c = length s"
proof (cases "s = []")
  case True
  with assms have "new_char True 0 a = (Inr c, a')"
    by (simp add: kmscon_char_new_u8_def kmscon_char_new_def)
  from new_char_Inr [OF this] True show ?thesis
    by (simp add: char_ok_def content_def)
next
  case False
  with assms obtain ch a1 where n: "new_char True (length s) a = (Inr ch, a1)"
    by (auto simp: kmscon_char_new_u8_def split: prod.splits sum.splits)
  note c = new_char_Inr [OF n]
  have fits: "length s \<le> c_size ch" using c False by simp
  from assms n False
  have "c = ch\<lparr>c_buf := memcpy (c_buf ch) 0 s (length s), c_len := length s\<rparr>"
    by (simp add: kmscon_char_new_u8_def kmscon_char_set_u8_fits [OF fits])
  then show ?thesis using c False
    by (simp add: char_ok_def content_def memcpy_def)
qed

text \<open>
  C8. For every byte sequence \<open>s\<close>: when the buffer created from \<open>s\<close> is
  duplicated, the duplicate's bytes (the first \<^verbatim>\<open>kmscon_char_get_len\<close> bytes
  behind \<^verbatim>\<open>kmscon_char_get_u8\<close>) are \<open>s\<close> and its length is the length of
  \<open>s\<close>.
\<close>

theorem kmscon_char_dup_new_u8:
  assumes "kmscon_char_new_u8 True (Some s) (length s) a = (Inr c, a1)"
    and "kmscon_char_dup True (Some c) a1 = (Inr d, a2)"
  shows "\<exists>b. kmscon_char_get_u8 (Some d) = Some b \<and>
              take (kmscon_char_get_len (Some d)) b = s \<and>
              kmscon_char_get_len (Some d) = length s"
proof -
  from kmscon_char_new_u8_Inr [OF assms(1)]
  have c: "char_ok c" "content c = s" "c_len c = length s" by simp_all
  from kmscon_char_dup_Inr [OF c(1) assms(2)] c
  have "content d = s" "c_len d = length s" by simp_all
  then show ?thesis
    by (simp add: kmscon_char_get_u8_def kmscon_char_get_len_def content_def)
qed

theorem kmscon_char_dup_new_u8_witness:
  "kmscon_char_new_u8 True (Some [104, 105, 33]) (length [104, 105, 33 :: byte]) [] =
     (Inr \<lparr>c_buf = [104, 105, 33], c_size = 3, c_len = 3\<rparr>, []) \<and>
   kmscon_char_dup True (Some \<lparr>c_buf = [104, 105, 33], c_size = 3, c_len = 3\<rparr>) [] =
     (Inr \<lparr>c_buf = [104, 105, 33], c_size = 3, c_len = 3\<rparr>, []) \<and>
   (\<exists>b. kmscon_char_get_u8 (Some \<lparr>c_buf = [104, 105, 33], c_size = 3, c_len = 3\<rparr>) = Some b \<and>
        take (kmscon_char_get_len (Some \<lparr>c_buf = [104, 105, 33], c_size = 3, c_len = 3\<rparr>)) b =
          [104, 105, 33] \<and>
        kmscon_char_get_len (Some \<lparr>c_buf = [104, 105, 33], c_size = 3, c_len = 3\<rparr>) =
          length [104, 105, 33 :: byte])"
proof -
  have n: "kmscon_char_new_u8 True (Some [104, 105, 33]) (length [104, 105, 33 :: byte]) [] =
     (Inr \<lparr>c_buf = [104, 105, 33], c_size = 3, c_len = 3\<rparr>, [])"
    by (simp add: kmscon_char_new_u8_def new_char_def kmscon_char_set_u8_def memcpy_def)
  have d: "kmscon_char_dup True (Some \<lparr>c_buf = [104, 105, 33], c_size = 3, c_len = 3\<rparr>) [] =
     (Inr \<lparr>c_buf = [104, 105, 33], c_size = 3, c_len = 3\<rparr>, [])"
    by (simp add: kmscon_char_dup_def new_char_def kmscon_char_set_u8_def memcpy_def)
  from n d kmscon_char_dup_new_u8 [OF n d] show ?thesis by blast
qed

text \<open>
  C9, as the code has it. For every constructed buffer the hash of the table
  is the fold from 5381 with \<open>h * 33 + c\<close> over the bytes of the content in
  order, where \<open>c\<close> is the byte as the \<^verbatim>\<open>char\<close> of the platform: its value, and
  its value less 256 for a byte from 128 on where \<^verbatim>\<open>char\<close> is signed. It is
  the fold of the specification over the byte values where \<^verbatim>\<open>char\<close> is
  unsigned or every byte of the content is below 128. The equality of the
  table holds exactly for buffers of equal length with equal bytes.
\<close>

theorem kmscon_char_hash_equal:
  assumes "char_ok ch1" and "char_ok ch2"
  shows "kmscon_char_hash schar ch1 =
           foldl (\<lambda>h b. h * 33 + (if schar \<and> 128 \<le> b then ucast b - 256 else ucast b)) 5381
             (take (c_len ch1) (c_buf ch1)) \<and>
         (\<not> schar \<or> list_all (\<lambda>b. b < 128) (take (c_len ch1) (c_buf ch1)) \<longrightarrow>
            kmscon_char_hash schar ch1 = spec_djb2 (take (c_len ch1) (c_buf ch1))) \<and>
         kmscon_char_equal ch1 ch2 =
           (c_len ch1 = c_len ch2 \<and>
            take (c_len ch1) (c_buf ch1) = take (c_len ch2) (c_buf ch2))"
proof -
  have 1: "kmscon_char_hash schar ch1 =
      foldl (\<lambda>h b. h * 33 + (if schar \<and> 128 \<le> b then ucast b - 256 else ucast b)) 5381
        (take (c_len ch1) (c_buf ch1))"
    using kmscon_char_hash_fold [OF assms(1), of schar]
    by (simp only: char_to_guint_value content_def)
  have 2: "\<not> schar \<or> list_all (\<lambda>b. b < 128) (take (c_len ch1) (c_buf ch1)) \<longrightarrow>
      kmscon_char_hash schar ch1 = spec_djb2 (take (c_len ch1) (c_buf ch1))"
    using kmscon_char_hash_spec_djb2 [OF assms(1), of schar]
    by (simp only: content_def) blast
  have "length (content ch1) = c_len ch1" "length (content ch2) = c_len ch2"
    using assms by (simp_all add: char_ok_def content_def)
  then have "(content ch1 = content ch2) =
      (c_len ch1 = c_len ch2 \<and> content ch1 = content ch2)"
    by metis
  then have 3: "kmscon_char_equal ch1 ch2 =
      (c_len ch1 = c_len ch2 \<and>
       take (c_len ch1) (c_buf ch1) = take (c_len ch2) (c_buf ch2))"
    using kmscon_char_equal_content [OF assms]
    by (simp add: content_def)
  from 1 2 3 show ?thesis by (intro conjI)
qed

theorem kmscon_char_hash_equal_witness:
  "char_ok ex_key \<and> char_ok ex_key2 \<and> char_ok ex_key_e9 \<and>
   list_all (\<lambda>b. b < 128) (take (c_len ex_key) (c_buf ex_key)) \<and>
   kmscon_char_hash True ex_key = spec_djb2 [65] \<and>
   spec_djb2 [65] = 177638 \<and>
   kmscon_char_equal ex_key ex_key2 \<and>
   kmscon_char_hash False ex_key_e9 = spec_djb2 [195, 169] \<and>
   spec_djb2 [195, 169] = 5866513 \<and>
   kmscon_char_hash True ex_key_e9 = 5857809"
proof -
  have a: "char_ok ex_key" by (simp add: char_ok_def ex_key_def)
  have b: "char_ok ex_key2" by (simp add: char_ok_def ex_key2_def)
  have c: "char_ok ex_key_e9" by (simp add: char_ok_def ex_key_e9_def)
  have t: "take (c_len ex_key) (c_buf ex_key) = [65]" by (simp add: ex_key_def)
  have t9: "take (c_len ex_key_e9) (c_buf ex_key_e9) = [195, 169]"
    by (simp add: ex_key_e9_def)
  have l: "list_all (\<lambda>b. b < 128) (take (c_len ex_key) (c_buf ex_key))"
    by (simp add: t)
  have e: "c_len ex_key = c_len ex_key2 \<and>
      take (c_len ex_key) (c_buf ex_key) = take (c_len ex_key2) (c_buf ex_key2)"
    by (simp add: ex_key_def ex_key2_def)
  have s: "spec_djb2 [65] = 177638" "spec_djb2 [195, 169] = 5866513"
    by (simp_all add: spec_djb2_def)
  have f: "foldl (\<lambda>h b. h * 33 + (if True \<and> 128 \<le> b then ucast b - 256 else ucast b))
      (5381 :: 32 word) [195, 169 :: byte] = 5857809"
    by simp
  from kmscon_char_hash_equal [OF a b, of True] l e
  have "kmscon_char_hash True ex_key = spec_djb2 (take (c_len ex_key) (c_buf ex_key))"
    and 2: "kmscon_char_equal ex_key ex_key2"
    by blast+
  then have 1: "kmscon_char_hash True ex_key = spec_djb2 [65]" by (simp only: t)
  from kmscon_char_hash_equal [OF c c, of False]
  have "kmscon_char_hash False ex_key_e9 = spec_djb2 (take (c_len ex_key_e9) (c_buf ex_key_e9))"
    by blast
  then have 3: "kmscon_char_hash False ex_key_e9 = spec_djb2 [195, 169]" by (simp only: t9)
  from kmscon_char_hash_equal [OF c c, of True]
  have "kmscon_char_hash True ex_key_e9 =
      foldl (\<lambda>h b. h * 33 + (if True \<and> 128 \<le> b then ucast b - 256 else ucast b)) 5381
        (take (c_len ex_key_e9) (c_buf ex_key_e9))"
    by blast
  then have 4: "kmscon_char_hash True ex_key_e9 = 5857809" by (simp only: t9 f)
  from a b c l s 1 2 3 4 show ?thesis by (intro conjI)
qed

text \<open>
  The claim C9 itself fails where \<^verbatim>\<open>char\<close> is signed: for the two bytes 195
  and 169 the code computes another hash than the fold over the byte values.
\<close>

theorem kmscon_char_hash_equal_counterexample:
  "char_ok ex_key_e9 \<and>
   kmscon_char_hash True ex_key_e9 = 5857809 \<and>
   spec_djb2 (take (c_len ex_key_e9) (c_buf ex_key_e9)) = 5866513 \<and>
   kmscon_char_hash True ex_key_e9 \<noteq> spec_djb2 (take (c_len ex_key_e9) (c_buf ex_key_e9))"
proof -
  have c: "char_ok ex_key_e9" by (simp add: char_ok_def ex_key_e9_def)
  have h: "kmscon_char_hash True ex_key_e9 = 5857809"
    unfolding kmscon_char_hash_fold [OF c]
    by (simp add: content_def char_to_guint_def ex_key_e9_def)
  have s: "spec_djb2 (take (c_len ex_key_e9) (c_buf ex_key_e9)) = 5866513"
    by (simp add: spec_djb2_def ex_key_e9_def)
  from c h s show ?thesis by simp
qed

text \<open>
  C10. With length 0, \<^verbatim>\<open>kmscon_char_new_u8\<close> is \<^verbatim>\<open>kmscon_char_new\<close> whatever the
  byte pointer is: when the two allocations succeed it returns an empty
  buffer of the default size, also for a null byte pointer, and it never
  returns \<^verbatim>\<open>-EINVAL\<close> for a valid \<^verbatim>\<open>out\<close>; with a non-zero length a null byte
  pointer gives \<^verbatim>\<open>-EINVAL\<close>.
\<close>

theorem kmscon_char_new_u8_len0:
  "kmscon_char_new_u8 out str 0 a = kmscon_char_new out a \<and>
   (malloc a = (True, a1) \<and> malloc a1 = (True, a2) \<longrightarrow>
      kmscon_char_new_u8 True None 0 a =
        (Inr \<lparr>c_buf = replicate KMSCON_CHAR_SIZE 0, c_size = KMSCON_CHAR_SIZE, c_len = 0\<rparr>, a2)) \<and>
   fst (kmscon_char_new_u8 True str 0 a) \<noteq> Inl (errno_of InvalidArgument) \<and>
   (len \<noteq> 0 \<longrightarrow> kmscon_char_new_u8 out None len a = (Inl (errno_of InvalidArgument), a))"
proof -
  have 1: "\<And>out str. kmscon_char_new_u8 out str 0 a = kmscon_char_new out a"
    by (simp add: kmscon_char_new_u8_def)
  have 2: "malloc a = (True, a1) \<and> malloc a1 = (True, a2) \<longrightarrow>
      kmscon_char_new_u8 True None 0 a =
        (Inr \<lparr>c_buf = replicate KMSCON_CHAR_SIZE 0, c_size = KMSCON_CHAR_SIZE, c_len = 0\<rparr>, a2)"
    by (auto simp: 1 kmscon_char_new_def new_char_mallocs)
  have 3: "fst (kmscon_char_new_u8 True str 0 a) \<noteq> Inl (errno_of InvalidArgument)"
    by (auto simp: 1 kmscon_char_new_def new_char_def Let_def split: prod.splits bool.splits)
  have 4: "len \<noteq> 0 \<longrightarrow> kmscon_char_new_u8 out None len a = (Inl (errno_of InvalidArgument), a)"
    by (simp add: kmscon_char_new_u8_def)
  from 1 2 3 4 show ?thesis by blast
qed

theorem kmscon_char_new_u8_len0_witness:
  "malloc [] = (True, []) \<and>
   kmscon_char_new_u8 True None 0 [] =
     (Inr \<lparr>c_buf = [0, 0, 0, 0, 0, 0], c_size = 6, c_len = 0\<rparr>, []) \<and>
   kmscon_char_new_u8 True None 3 [] = (Inl EINVAL, [])"
proof -
  have m: "malloc [] = (True, [])" by simp
  have r: "replicate KMSCON_CHAR_SIZE (0 :: byte) = [0, 0, 0, 0, 0, 0]"
    by (simp add: KMSCON_CHAR_SIZE_def numeral_eq_Suc)
  from kmscon_char_new_u8_len0 [of True None "[]" "[]" "[]" 3] m
  have "kmscon_char_new_u8 True None 0 [] =
      (Inr \<lparr>c_buf = replicate KMSCON_CHAR_SIZE 0, c_size = KMSCON_CHAR_SIZE, c_len = 0\<rparr>, [])"
    and "kmscon_char_new_u8 True None 3 [] = (Inl EINVAL, [])"
    by (auto simp del: malloc.simps)
  with m r show ?thesis by (simp add: KMSCON_CHAR_SIZE_def)
qed

text \<open>
  C3 at a failing reallocation: \<^verbatim>\<open>kmscon_char_append_u8\<close> of seven bytes to
  an empty buffer of size 6 leaves the buffer as it is and returns
  \<^verbatim>\<open>-EINVAL\<close>, not the code of OutOfMemory; \<^verbatim>\<open>kmscon_char_set_u8\<close> on the same
  input returns \<^verbatim>\<open>-ENOMEM\<close>.
\<close>

theorem kmscon_char_append_u8_realloc_code:
  "kmscon_char_append_u8 (Some ex_empty) [1, 2, 3, 4, 5, 6, 7] 7 [False] =
     (Inl EINVAL, Some ex_empty, []) \<and>
   kmscon_char_set_u8 (Some ex_empty) [1, 2, 3, 4, 5, 6, 7] 7 [False] =
     (Inl ENOMEM, Some ex_empty, []) \<and>
   EINVAL \<noteq> errno_of OutOfMemory"
  by (simp add: kmscon_char_append_u8_def kmscon_char_set_u8_def realloc_def ex_empty_def)

section \<open>Properties of glyphs and of the font\<close>

subsection \<open>The heap of glyphs\<close>

lemma glyph_at_SomeD:
  "glyph_at h p = Some g \<Longrightarrow> p < length (glyphs h) \<and> glyphs h ! p = Some g"
  by (simp add: glyph_at_def split: if_splits)

lemma glyph_at_glyph_upd:
  "glyph_at (glyph_upd p u h) q =
     (if q = p then map_option u (glyph_at h p) else glyph_at h q)"
  by (auto simp: glyph_upd_def glyph_at_def split: option.splits)

lemma length_glyph_upd: "length (glyphs (glyph_upd p u h)) = length (glyphs h)"
  by (simp add: glyph_upd_def split: option.splits)

lemma allocs_glyph_upd: "allocs (glyph_upd p u h) = allocs h"
  by (simp add: glyph_upd_def split: option.splits)

lemma glyph_at_allocs: "glyph_at (h\<lparr>allocs := a\<rparr>) q = glyph_at h q"
  by (simp add: glyph_at_def)

lemma glyph_upd_allocs: "glyph_upd p u (h\<lparr>allocs := a\<rparr>) = (glyph_upd p u h)\<lparr>allocs := a\<rparr>"
  by (simp add: glyph_upd_def glyph_at_def split: option.splits)

lemma glyph_at_ref:
  "glyph_at (kmscon_glyph_ref (Some p) h) q =
     (if q = p then map_option (\<lambda>g. g\<lparr>g_ref := g_ref g + 1\<rparr>) (glyph_at h p)
      else glyph_at h q)"
  by (simp add: kmscon_glyph_ref_def glyph_at_glyph_upd)

lemma kmscon_glyph_unref_shared:
  "glyph_at h p = Some g \<Longrightarrow> 1 < g_ref g \<Longrightarrow>
   kmscon_glyph_unref (Some p) h = glyph_upd p (\<lambda>g. g\<lparr>g_ref := g_ref g - 1\<rparr>) h"
  by (simp add: kmscon_glyph_unref_def)

lemma kmscon_glyph_unref_ref:
  assumes "glyph_at h p = Some g" and "0 < g_ref g"
  shows "kmscon_glyph_unref (Some p) (kmscon_glyph_ref (Some p) h) = h"
proof -
  let ?h1 = "kmscon_glyph_ref (Some p) h"
  from glyph_at_SomeD [OF assms(1)] have p: "p < length (glyphs h)" "glyphs h ! p = Some g"
    by simp_all
  have h1: "?h1 = h\<lparr>glyphs := (glyphs h)[p := Some (g\<lparr>g_ref := g_ref g + 1\<rparr>)]\<rparr>"
    by (simp add: kmscon_glyph_ref_def glyph_upd_def assms(1))
  have at1: "glyph_at ?h1 p = Some (g\<lparr>g_ref := g_ref g + 1\<rparr>)"
    by (simp add: glyph_at_ref assms)
  have "kmscon_glyph_unref (Some p) ?h1 = glyph_upd p (\<lambda>g. g\<lparr>g_ref := g_ref g - 1\<rparr>) ?h1"
    by (rule kmscon_glyph_unref_shared [OF at1]) (simp add: assms(2))
  also have "\<dots> = h\<lparr>glyphs := (glyphs h)[p := Some g]\<rparr>"
    unfolding glyph_upd_def at1 by (simp add: h1)
  also have "(glyphs h)[p := Some g] = glyphs h"
    using p by (metis list_update_id)
  finally show ?thesis by simp
qed

lemma glyph_at_glyph_free:
  "glyph_at (glyph_free p h) q = (if q = p then None else glyph_at h q)"
  by (auto simp: glyph_free_def glyph_at_def)

lemma glyph_at_unref_other:
  "q \<noteq> p \<Longrightarrow> glyph_at (kmscon_glyph_unref (Some p) h) q = glyph_at h q"
  by (simp add: kmscon_glyph_unref_def kmscon_glyph_reset_def glyph_at_glyph_free
      glyph_at_glyph_upd split: option.splits)

lemma kmscon_glyph_new_Inr:
  assumes "kmscon_glyph_new True (Some k) h = (Inr p, h2)"
  shows "c_len k \<noteq> 0 \<and> p = length (glyphs h) \<and>
         (\<exists>d a1 a2. kmscon_char_dup True (Some k) a1 = (Inr d, a2) \<and>
            h2 = h\<lparr>glyphs := glyphs h @
                   [Some \<lparr>g_ref = 1, g_ch = d, g_width = 0, g_type = GLYPH_NONE\<rparr>],
                 allocs := a2\<rparr>)"
  using assms
  by (auto simp: kmscon_glyph_new_def split: if_splits prod.splits bool.splits sum.splits)

lemma kmscon_glyph_new_empty:
  "c_len k = 0 \<Longrightarrow> kmscon_glyph_new out (Some k) h = (Inl EINVAL, h)"
  by (simp add: kmscon_glyph_new_def)

lemma kmscon_glyph_set_Inr:
  assumes at: "glyph_at h p = Some g"
    and set: "kmscon_glyph_set (Some p) (Some f) h = (Inr u, h')"
  shows "glyphs h' = (glyphs h)[p := Some (g\<lparr>
             g_type :=
               (case lay_line (ctx_shape (f_ctx f) (content (g_ch g))) of
                  None \<Rightarrow> GLYPH_LAYOUT (ctx_shape (f_ctx f) (content (g_ch g)))
                | Some [] \<Rightarrow> GLYPH_LAYOUT (ctx_shape (f_ctx f) (content (g_ch g)))
                | Some [run] \<Rightarrow> GLYPH_STR (run_font run) (run_glyphs run)
                    (PANGO_PIXELS_CEIL
                       (lay_baseline (ctx_shape (f_ctx f) (content (g_ch g)))))
                | Some (run # r # rs) \<Rightarrow>
                    GLYPH_LAYOUT (ctx_shape (f_ctx f) (content (g_ch g)))),
             g_width := PANGO_PIXELS
               (lay_extents_width (ctx_shape (f_ctx f) (content (g_ch g))))\<rparr>)]"
proof -
  from glyph_at_SomeD [OF at] have p: "p < length (glyphs h)" by simp
  have upd: "\<And>u a. glyphs (glyph_upd p u (h\<lparr>allocs := a\<rparr>)) = (glyphs h)[p := Some (u g)]"
    using at by (simp add: glyph_upd_def glyph_at_allocs)
  have upd0: "\<And>u. glyphs (glyph_upd p u h) = (glyphs h)[p := Some (u g)]"
    using at by (simp add: glyph_upd_def)
  have upd2: "\<And>u k. glyph_at k p = Some g \<Longrightarrow> glyphs k = glyphs h \<Longrightarrow>
      glyphs (glyph_upd p u k) = (glyphs h)[p := Some (u g)]"
    by (simp add: glyph_upd_def)
  have nest: "\<And>u v k. glyphs (glyph_upd p u (glyph_upd p v k)) =
      (case glyph_at k p of None \<Rightarrow> glyphs k | Some x \<Rightarrow> (glyphs k)[p := Some (u (v x))])"
    by (auto simp: glyph_upd_def glyph_at_def split: option.splits)
  have nest3: "\<And>u v w k. glyph_at k p = Some g \<Longrightarrow> glyphs k = glyphs h \<Longrightarrow>
      glyphs (glyph_upd p u (glyph_upd p v (glyph_upd p w k))) =
      (glyphs h)[p := Some (u (v (w g)))]"
    using p by (auto simp: glyph_upd_def glyph_at_def split: option.splits)
  from set show ?thesis
    unfolding kmscon_glyph_set_def pango_layout_new_def pango_layout_set_text_def
      pango_glyph_string_copy_def kmscon_glyph_reset_def Let_def content_def [symmetric]
    by (auto simp: at nest3 glyph_at_allocs
        split: if_splits option.splits list.splits prod.splits bool.splits)
qed

lemma kmscon_glyph_set_error:
  "kmscon_glyph_set glyph font h = (Inl e, h') \<Longrightarrow> glyphs h' = glyphs h"
  by (auto simp: kmscon_glyph_set_def pango_layout_new_def pango_glyph_string_copy_def Let_def
      split: option.splits list.splits if_splits prod.splits bool.splits)

subsection \<open>The hash table and the lookup\<close>

lemma g_hash_table_lookup_empty_key:
  "list_all (entry_ok h) t \<Longrightarrow> c_len key = 0 \<Longrightarrow> g_hash_table_lookup t key = None"
  by (induction t) (auto simp: entry_ok_def kmscon_char_equal_def)

lemma g_hash_table_lookup_content:
  "list_all (entry_ok h) t \<Longrightarrow> char_ok k1 \<Longrightarrow> char_ok k2 \<Longrightarrow> content k1 = content k2 \<Longrightarrow>
   g_hash_table_lookup t k1 = g_hash_table_lookup t k2"
  by (induction t) (auto simp: entry_ok_def kmscon_char_equal_content)

lemma g_hash_table_lookup_Some:
  "g_hash_table_lookup t k = Some p \<Longrightarrow> p \<in> set (map snd t)"
  by (induction t) (auto split: if_splits)

lemma g_hash_table_insert_miss:
  "g_hash_table_lookup t k = None \<Longrightarrow> g_hash_table_insert t k p = t @ [(k, p)]"
  by (induction t) (auto split: if_splits)

lemma g_hash_table_lookup_append:
  "g_hash_table_lookup (t @ [(ch, p)]) k =
     (case g_hash_table_lookup t k of
        Some q \<Rightarrow> Some q
      | None \<Rightarrow> if kmscon_char_equal ch k then Some p else None)"
  by (induction t) auto

lemma filter_snd_distinct:
  "distinct (map snd t) \<Longrightarrow> p \<in> set (map snd t) \<Longrightarrow>
   length (filter (\<lambda>e. snd e = p) t) = 1"
proof (induction t)
  case Nil
  then show ?case by simp
next
  case (Cons e t)
  show ?case
  proof (cases "snd e = p")
    case True
    with Cons.prems have "p \<notin> snd ` set t" by simp
    then have "\<And>x. x \<in> set t \<Longrightarrow> snd x \<noteq> p" by blast
    then have "filter (\<lambda>e. snd e = p) t = []"
      by (simp add: filter_empty_conv)
    with True show ?thesis by simp
  next
    case False
    with Cons show ?thesis by auto
  qed
qed

lemma entry_ok_live:
  "list_all (entry_ok h) t \<Longrightarrow> q \<in> set (map snd t) \<Longrightarrow> q < length (glyphs h)"
  by (induction t) (auto simp: entry_ok_def glyph_at_def split: option.splits if_splits)

lemma entry_ok_ref:
  "list_all (entry_ok h) t \<Longrightarrow> r \<in> set (map snd t) \<Longrightarrow> glyph_at h r = Some g \<Longrightarrow>
   0 < g_ref g \<and> g_type g \<noteq> GLYPH_NONE"
  by (induction t) (auto simp: entry_ok_def)

lemma entry_ok_mono:
  assumes "list_all (entry_ok h) t"
    and "\<And>q g. q \<in> set (map snd t) \<Longrightarrow> glyph_at h q = Some g \<Longrightarrow>
           \<exists>g'. glyph_at h' q = Some g' \<and> 0 < g_ref g' \<and> g_type g' = g_type g"
  shows "list_all (entry_ok h') t"
  using assms
proof (induction t)
  case Nil
  then show ?case by simp
next
  case (Cons e t)
  obtain k q where e: "e = (k, q)" by (cases e)
  from Cons.prems(1) e obtain g where g: "char_ok k" "c_len k \<noteq> 0" "glyph_at h q = Some g"
      "g_type g \<noteq> GLYPH_NONE"
    by (auto simp: entry_ok_def split: option.splits)
  from Cons.prems(2) [of q g] e g(3)
  obtain g' where "glyph_at h' q = Some g'" "0 < g_ref g'" "g_type g' = g_type g" by auto
  with g have "entry_ok h' e" by (simp add: entry_ok_def e)
  moreover have "list_all (entry_ok h') t"
    using Cons.prems by (intro Cons.IH) auto
  ultimately show ?case by simp
qed

lemma kmscon_font_lookup_hit:
  "g_hash_table_lookup (f_glyphs f) k = Some p \<Longrightarrow>
   kmscon_font_lookup (Some f) (Some k) True h = (Inr p, Some f, kmscon_glyph_ref (Some p) h)"
  by (simp add: kmscon_font_lookup_def)

lemma kmscon_font_lookup_miss:
  assumes miss: "g_hash_table_lookup (f_glyphs f) k = None"
    and k: "char_ok k"
    and ok: "kmscon_font_lookup (Some f) (Some k) True h = (Inr p, font', h')"
  shows "\<exists>ch g'. char_ok ch \<and> content ch = content k \<and> c_len ch \<noteq> 0 \<and>
           font' = Some (f\<lparr>f_glyphs := g_hash_table_insert (f_glyphs f) ch p\<rparr>) \<and>
           p = length (glyphs h) \<and> glyph_at h' p = Some g' \<and> g_ref g' = 2 \<and>
           g_type g' \<noteq> GLYPH_NONE \<and> (\<forall>q. q \<noteq> p \<longrightarrow> glyph_at h' q = glyph_at h q)"
proof -
  from ok miss obtain ch a1 h2 u h3 where
    dup: "kmscon_char_dup True (Some k) (allocs h) = (Inr ch, a1)" and
    new: "kmscon_glyph_new True (Some k) (h\<lparr>allocs := a1\<rparr>) = (Inr p, h2)" and
    set: "kmscon_glyph_set (Some p) (Some f) h2 = (Inr u, h3)" and
    font': "font' = Some (f\<lparr>f_glyphs := g_hash_table_insert (f_glyphs f) ch p\<rparr>)" and
    h': "h' = kmscon_glyph_ref (Some p) h3"
    by (auto simp: kmscon_font_lookup_def split: prod.splits sum.splits)
  from kmscon_char_dup_Inr [OF k dup]
  have ch: "char_ok ch" "content ch = content k" "c_len ch = c_len k" by simp_all
  from kmscon_glyph_new_Inr [OF new] obtain d where
    len: "c_len k \<noteq> 0" and p: "p = length (glyphs h)" and
    h2: "glyphs h2 = glyphs h @ [Some \<lparr>g_ref = 1, g_ch = d, g_width = 0, g_type = GLYPH_NONE\<rparr>]"
    by auto
  let ?g0 = "\<lparr>g_ref = 1, g_ch = d, g_width = 0, g_type = GLYPH_NONE\<rparr>"
  have at2: "glyph_at h2 p = Some ?g0"
    by (simp add: glyph_at_def h2 p)
  note h3 = kmscon_glyph_set_Inr [OF at2 set]
  obtain g3 where at3: "glyph_at h3 p = Some g3" and g3: "g_ref g3 = 1" "g_type g3 \<noteq> GLYPH_NONE"
    by (auto simp: glyph_at_def h3 h2 p split: option.splits list.splits)
  have other3: "\<And>q. q \<noteq> p \<Longrightarrow> glyph_at h3 q = glyph_at h q"
    by (auto simp: glyph_at_def h3 h2 p nth_append)
  have "glyph_at h' p = Some (g3\<lparr>g_ref := g_ref g3 + 1\<rparr>)"
    by (simp add: h' glyph_at_ref at3)
  moreover have "\<And>q. q \<noteq> p \<Longrightarrow> glyph_at h' q = glyph_at h q"
    by (simp add: h' glyph_at_ref other3)
  ultimately show ?thesis
    using ch len font' p g3 by auto
qed

lemma kmscon_font_lookup_font_ok:
  assumes ok: "font_ok f h" and k: "char_ok key"
    and res: "kmscon_font_lookup (Some f) (Some key) True h = (Inr p, font', h')"
  shows "\<exists>f'. font' = Some f' \<and> font_ok f' h'"
proof (cases "g_hash_table_lookup (f_glyphs f) key")
  case (Some q)
  from res kmscon_font_lookup_hit [OF Some, of h]
  have eq: "p = q" "font' = Some f" "h' = kmscon_glyph_ref (Some q) h" by auto
  have "list_all (entry_ok h') (f_glyphs f)"
  proof (rule entry_ok_mono)
    show "list_all (entry_ok h) (f_glyphs f)" using ok by (simp add: font_ok_def)
  next
    fix r g assume "r \<in> set (map snd (f_glyphs f))" "glyph_at h r = Some g"
    then show "\<exists>g'. glyph_at h' r = Some g' \<and> 0 < g_ref g' \<and> g_type g' = g_type g"
      using entry_ok_ref [of h "f_glyphs f" r g] ok
      by (auto simp: eq glyph_at_ref font_ok_def)
  qed
  with ok eq show ?thesis by (simp add: font_ok_def)
next
  case None
  from kmscon_font_lookup_miss [OF None k res] obtain ch g' where
    ch: "char_ok ch" "content ch = content key" "c_len ch \<noteq> 0" and
    font': "font' = Some (f\<lparr>f_glyphs := g_hash_table_insert (f_glyphs f) ch p\<rparr>)" and
    p: "p = length (glyphs h)" and
    g': "glyph_at h' p = Some g'" "g_ref g' = 2" "g_type g' \<noteq> GLYPH_NONE" and
    other: "\<forall>q. q \<noteq> p \<longrightarrow> glyph_at h' q = glyph_at h q"
    by blast
  from ok have all: "list_all (entry_ok h) (f_glyphs f)" and dist: "distinct (map snd (f_glyphs f))"
    by (simp_all add: font_ok_def)
  from g_hash_table_lookup_content [OF all ch(1) k ch(2)] None
  have "g_hash_table_lookup (f_glyphs f) ch = None" by simp
  then have ins: "g_hash_table_insert (f_glyphs f) ch p = f_glyphs f @ [(ch, p)]"
    by (rule g_hash_table_insert_miss)
  have fresh: "p \<notin> set (map snd (f_glyphs f))"
    using entry_ok_live [OF all, of p] p by auto
  have "list_all (entry_ok h') (f_glyphs f)"
  proof (rule entry_ok_mono [OF all])
    fix r g assume r: "r \<in> set (map snd (f_glyphs f))" "glyph_at h r = Some g"
    with fresh have "r \<noteq> p" by auto
    with other r(2) have "glyph_at h' r = Some g" by simp
    moreover from entry_ok_ref [OF all r] have "0 < g_ref g" by simp
    ultimately show "\<exists>g'. glyph_at h' r = Some g' \<and> 0 < g_ref g' \<and> g_type g' = g_type g"
      by simp
  qed
  moreover have "entry_ok h' (ch, p)"
    using ch g' by (simp add: entry_ok_def)
  ultimately show ?thesis
    using dist fresh by (simp add: font' ins font_ok_def)
qed

lemma kmscon_glyph_unref_font_ok:
  assumes ok: "font_ok f h" and at: "glyph_at h p = Some g" and two: "1 < g_ref g"
  shows "font_ok f (kmscon_glyph_unref (Some p) h) \<and>
         allocs (kmscon_glyph_unref (Some p) h) = allocs h"
proof -
  let ?h' = "glyph_upd p (\<lambda>g. g\<lparr>g_ref := g_ref g - 1\<rparr>) h"
  have un: "kmscon_glyph_unref (Some p) h = ?h'"
    by (rule kmscon_glyph_unref_shared [OF at two])
  from ok have all: "list_all (entry_ok h) (f_glyphs f)" by (simp add: font_ok_def)
  have "list_all (entry_ok ?h') (f_glyphs f)"
  proof (rule entry_ok_mono [OF all])
    fix r g0 assume r: "r \<in> set (map snd (f_glyphs f))" "glyph_at h r = Some g0"
    from entry_ok_ref [OF all r] have "0 < g_ref g0" by simp
    with r(2) at two
    show "\<exists>g'. glyph_at ?h' r = Some g' \<and> 0 < g_ref g' \<and> g_type g' = g_type g0"
      by (auto simp: glyph_at_glyph_upd)
  qed
  with ok show ?thesis by (simp add: un font_ok_def allocs_glyph_upd)
qed

text \<open>A lookup that fails leaves the table and the glyphs of the table as they are.\<close>

lemma kmscon_font_lookup_error:
  assumes res: "kmscon_font_lookup (Some f) (Some key) True h = (Inl e, font', h')"
  shows "font' = Some f \<and> (\<forall>q < length (glyphs h). glyph_at h' q = glyph_at h q)"
proof (cases "g_hash_table_lookup (f_glyphs f) key")
  case (Some p)
  with res show ?thesis by (simp add: kmscon_font_lookup_def)
next
  case None
  obtain r1 a1 where dup: "kmscon_char_dup True (Some key) (allocs h) = (r1, a1)"
    by (cases "kmscon_char_dup True (Some key) (allocs h)")
  show ?thesis
  proof (cases r1)
    case (Inl e1)
    with res None dup have "font' = Some f" "h' = h\<lparr>allocs := a1\<rparr>"
      by (simp_all add: kmscon_font_lookup_def)
    then show ?thesis by (simp add: glyph_at_allocs)
  next
    case (Inr ch)
    obtain r2 h2 where new: "kmscon_glyph_new True (Some key) (h\<lparr>allocs := a1\<rparr>) = (r2, h2)"
      by (cases "kmscon_glyph_new True (Some key) (h\<lparr>allocs := a1\<rparr>)")
    show ?thesis
    proof (cases r2)
      case (Inl e2)
      with new have "glyphs h2 = glyphs h"
        by (auto simp: kmscon_glyph_new_def split: if_splits prod.splits bool.splits sum.splits)
      moreover from res None dup \<open>r1 = Inr ch\<close> new Inl
      have "font' = Some f" "h' = h2"
        by (simp_all add: kmscon_font_lookup_def)
      ultimately show ?thesis by (simp add: glyph_at_def)
    next
      case (Inr p)
      from kmscon_glyph_new_Inr [OF new [unfolded Inr]]
      have p: "p = length (glyphs h)" and
        g2: "\<forall>q < length (glyphs h). glyph_at h2 q = glyph_at h q"
        by (auto simp: glyph_at_def nth_append)
      obtain r3 h3 where set: "kmscon_glyph_set (Some p) (Some f) h2 = (r3, h3)"
        by (cases "kmscon_glyph_set (Some p) (Some f) h2")
      from res None dup \<open>r1 = Inr ch\<close> new Inr set
      have "(case r3 of Inl e \<Rightarrow> (Inl e, Some f, kmscon_glyph_unref (Some p) h3)
             | Inr u \<Rightarrow> (Inr p, Some (f\<lparr>f_glyphs := g_hash_table_insert (f_glyphs f) ch p\<rparr>),
                        kmscon_glyph_ref (Some p) h3)) = (Inl e, font', h')"
        by (simp add: kmscon_font_lookup_def)
      then obtain e3 where
        r3: "r3 = Inl e3" and h': "h' = kmscon_glyph_unref (Some p) h3" and f': "font' = Some f"
        by (cases r3) simp_all
      from kmscon_glyph_set_error [OF set [unfolded r3]]
      have "\<forall>q. glyph_at h3 q = glyph_at h2 q" by (simp add: glyph_at_def)
      with g2 p f' show ?thesis
        by (simp add: h' glyph_at_unref_other)
    qed
  qed
qed

lemma kmscon_font_lookup_error_font_ok:
  assumes ok: "font_ok f h"
    and res: "kmscon_font_lookup (Some f) (Some key) True h = (Inl e, font', h')"
  shows "font' = Some f \<and> font_ok f h'"
proof -
  from kmscon_font_lookup_error [OF res]
  have f': "font' = Some f" and same: "\<forall>q < length (glyphs h). glyph_at h' q = glyph_at h q"
    by simp_all
  from ok have all: "list_all (entry_ok h) (f_glyphs f)" by (simp add: font_ok_def)
  have "list_all (entry_ok h') (f_glyphs f)"
  proof (rule entry_ok_mono [OF all])
    fix r g assume r: "r \<in> set (map snd (f_glyphs f))" "glyph_at h r = Some g"
    from entry_ok_live [OF all r(1)] same r(2) have "glyph_at h' r = Some g" by simp
    moreover from entry_ok_ref [OF all r] have "0 < g_ref g" by simp
    ultimately show "\<exists>g'. glyph_at h' r = Some g' \<and> 0 < g_ref g' \<and> g_type g' = g_type g"
      by simp
  qed
  with ok f' show ?thesis by (simp add: font_ok_def)
qed

subsection \<open>Shaping and drawing\<close>

lemma round_div_1024: "round (real_of_int d / 1024) = (d + 512) div 1024"
proof -
  have "real_of_int d / 1024 + 1 / 2 = real_of_int (d + 512) / real_of_int 1024"
    by simp
  then have "round (real_of_int d / 1024) = \<lfloor>real_of_int (d + 512) / real_of_int 1024\<rfloor>"
    by (simp only: round_def)
  also have "\<dots> = (d + 512) div 1024"
    by (rule floor_divide_of_int_eq)
  finally show ?thesis .
qed

lemma ceiling_div_add:
  fixes d b :: int
  assumes b: "0 < b"
  shows "- (- d div b) = (d + (b - 1)) div b"
proof -
  define q where "q = d div b"
  define r where "r = d mod b"
  have d: "d = b * q + r" by (simp add: q_def r_def)
  have r: "0 \<le> r" "r < b" using b by (simp_all add: r_def)
  show ?thesis
  proof (cases "r = 0")
    case True
    have e1: "d + (b - 1) = b * q + (b - 1)" by (simp add: d True)
    have 1: "(d + (b - 1)) div b = q"
      by (rule int_div_pos_eq [OF e1]) (use b in simp_all)
    have e2: "- d = b * (- q) + 0" by (simp add: d True)
    have 2: "- d div b = - q"
      by (rule int_div_pos_eq [OF e2]) (use b in simp_all)
    show ?thesis by (simp only: 1 2 minus_minus)
  next
    case False
    have e1: "d + (b - 1) = b * (q + 1) + (r - 1)" by (simp add: d algebra_simps)
    have 1: "(d + (b - 1)) div b = q + 1"
      by (rule int_div_pos_eq [OF e1]) (use r False in simp_all)
    have e2: "- d = b * (- q - 1) + (b - r)" by (simp add: d algebra_simps)
    have 2: "- d div b = - q - 1"
      by (rule int_div_pos_eq [OF e2]) (use r False in simp_all)
    show ?thesis by (simp add: 1 2)
  qed
qed

lemma ceiling_div_1024: "\<lceil>real_of_int d / 1024\<rceil> = (d + 1023) div 1024"
proof -
  have "\<lceil>real_of_int d / real_of_int 1024\<rceil> = - (- d div 1024)"
    by (rule ceiling_divide_eq_div)
  also have "\<dots> = (d + 1023) div 1024"
    using ceiling_div_add [of 1024 d] by simp
  finally show ?thesis by simp
qed

text \<open>
  Without overflow the addition of \<^verbatim>\<open>int\<close>s is the addition of the numbers,
  and the arithmetic shift by 10 is the division by 1024 rounded down.
\<close>

lemma sint_add_no_overflow:
  fixes d c :: "32 word"
  assumes "0 \<le> sint c" and "sint d + sint c < 2 ^ 31"
  shows "sint (d + c) = sint d + sint c"
proof -
  have "- (2 ^ 31) \<le> sint d" using sint_ge [of d] by simp
  with assms have "- (2 ^ 31) \<le> sint d + sint c" by linarith
  then have "signed_take_bit 31 (sint d + sint c) = sint d + sint c"
    using assms(2) by (intro signed_take_bit_int_eq_self) simp_all
  then show ?thesis by (simp add: sint_word_add)
qed

lemma signed_drop_bit_add_div:
  fixes d c :: "32 word"
  assumes "0 \<le> sint c" and "sint d + sint c < 2 ^ 31"
  shows "signed_drop_bit 10 (d + c) = word_of_int ((sint d + sint c) div 1024)"
proof -
  have "sint (signed_drop_bit 10 (d + c)) = (sint d + sint c) div 1024"
    by (simp add: sint_signed_drop_bit_eq sint_add_no_overflow [OF assms] drop_bit_eq_div)
  then have "word_of_int (sint (signed_drop_bit 10 (d + c))) =
      (word_of_int ((sint d + sint c) div 1024) :: 32 word)"
    by (simp only:)
  then show ?thesis by simp
qed

lemma PANGO_PIXELS_round:
  assumes "sint d + 512 < 2 ^ 31"
  shows "PANGO_PIXELS d = word_of_int (round (real_of_int (sint d) / 1024))"
proof -
  have "PANGO_PIXELS d = word_of_int ((sint d + 512) div 1024)"
    using signed_drop_bit_add_div [of 512 d] assms by (simp add: PANGO_PIXELS_def)
  then show ?thesis by (simp only: round_div_1024)
qed

lemma PANGO_PIXELS_CEIL_ceiling:
  assumes "sint d + 1023 < 2 ^ 31"
  shows "PANGO_PIXELS_CEIL d = word_of_int \<lceil>real_of_int (sint d) / 1024\<rceil>"
proof -
  have "PANGO_PIXELS_CEIL d = word_of_int ((sint d + 1023) div 1024)"
    using signed_drop_bit_add_div [of 1023 d] assms by (simp add: PANGO_PIXELS_CEIL_def)
  then show ?thesis by (simp only: ceiling_div_1024)
qed

text \<open>
  C6. When \<^verbatim>\<open>kmscon_glyph_set\<close> succeeds on a glyph, \<open>L\<close> being the layout the
  engine shapes the glyph's bytes to: if line 0 of \<open>L\<close> has exactly one run,
  the glyph becomes \<^verbatim>\<open>GLYPH_STR\<close> with the run's font, the run's glyph string
  and the baseline rounded up to whole pixels; in every other case (no line,
  no run, more than one run) it becomes \<^verbatim>\<open>GLYPH_LAYOUT\<close> holding \<open>L\<close>; in both
  cases its width is the extent width of \<open>L\<close> rounded to the nearest pixel,
  and the reference count and the character stay. The extent width and the
  baseline are \<^verbatim>\<open>int\<close>s for which the additions of 512 and of 1023 in the
  macros do not exceed \<^verbatim>\<open>INT_MAX\<close>, where C defines the result.
\<close>

theorem kmscon_glyph_set_variant:
  assumes "glyph_at h p = Some g"
    and "kmscon_glyph_set (Some p) (Some f) h = (Inr u, h')"
    and "L = ctx_shape (f_ctx f) (take (c_len (g_ch g)) (c_buf (g_ch g)))"
    and "sint (lay_extents_width L) + 512 < 2 ^ 31"
    and "sint (lay_baseline L) + 1023 < 2 ^ 31"
  shows "\<exists>g'. glyph_at h' p = Some g' \<and> g_ref g' = g_ref g \<and> g_ch g' = g_ch g \<and>
     g_type g' =
       (case lay_line L of
          Some [run] \<Rightarrow>
            GLYPH_STR (run_font run) (run_glyphs run)
              (word_of_int \<lceil>real_of_int (sint (lay_baseline L)) / 1024\<rceil>)
        | _ \<Rightarrow> GLYPH_LAYOUT L) \<and>
     g_width g' = word_of_int (round (real_of_int (sint (lay_extents_width L)) / 1024))"
proof -
  let ?T = "case lay_line L of
      None \<Rightarrow> GLYPH_LAYOUT L
    | Some [] \<Rightarrow> GLYPH_LAYOUT L
    | Some [run] \<Rightarrow> GLYPH_STR (run_font run) (run_glyphs run)
        (PANGO_PIXELS_CEIL (lay_baseline L))
    | Some (run # r # rs) \<Rightarrow> GLYPH_LAYOUT L"
  let ?g' = "g\<lparr>g_type := ?T, g_width := PANGO_PIXELS (lay_extents_width L)\<rparr>"
  from glyph_at_SomeD [OF assms(1)] have p: "p < length (glyphs h)" by simp
  have "glyphs h' = (glyphs h)[p := Some ?g']"
    using kmscon_glyph_set_Inr [OF assms(1,2)] by (simp only: content_def assms(3))
  with p have at: "glyph_at h' p = Some ?g'"
    by (simp add: glyph_at_def)
  have T: "?T = (case lay_line L of
      Some [run] \<Rightarrow> GLYPH_STR (run_font run) (run_glyphs run)
        (word_of_int \<lceil>real_of_int (sint (lay_baseline L)) / 1024\<rceil>)
    | _ \<Rightarrow> GLYPH_LAYOUT L)"
    by (simp add: PANGO_PIXELS_CEIL_ceiling [OF assms(5)] split: option.splits list.splits)
  have r: "g_ref ?g' = g_ref g" and c: "g_ch ?g' = g_ch g" by simp_all
  have t: "g_type ?g' = (case lay_line L of
      Some [run] \<Rightarrow> GLYPH_STR (run_font run) (run_glyphs run)
        (word_of_int \<lceil>real_of_int (sint (lay_baseline L)) / 1024\<rceil>)
    | _ \<Rightarrow> GLYPH_LAYOUT L)"
    using T by simp
  have w: "g_width ?g' = word_of_int (round (real_of_int (sint (lay_extents_width L)) / 1024))"
    by (simp add: PANGO_PIXELS_round [OF assms(4)])
  show ?thesis
    by (intro exI [of _ ?g'] conjI at r c t w)
qed

theorem kmscon_glyph_set_variant_witness:
  "glyph_at ex_heap_unset 0 =
     Some \<lparr>g_ref = 1, g_ch = ex_key, g_width = 0, g_type = GLYPH_NONE\<rparr> \<and>
   kmscon_glyph_set (Some 0) (Some ex_font) ex_heap_unset =
     (Inr (), \<lparr>glyphs = [Some \<lparr>g_ref = 1, g_ch = ex_key, g_width = 8,
                               g_type = GLYPH_STR 1 [65] 13\<rparr>], allocs = []\<rparr>) \<and>
   sint (lay_extents_width (ctx_shape (f_ctx ex_font) [65])) + 512 < 2 ^ 31 \<and>
   sint (lay_baseline (ctx_shape (f_ctx ex_font) [65])) + 1023 < 2 ^ 31 \<and>
   (\<exists>g'. glyph_at \<lparr>glyphs = [Some \<lparr>g_ref = 1, g_ch = ex_key, g_width = 8,
                               g_type = GLYPH_STR 1 [65] 13\<rparr>], allocs = []\<rparr> 0 = Some g' \<and>
      g_type g' = GLYPH_STR 1 [65] 13 \<and> g_width g' = 8)"
proof -
  have at: "glyph_at ex_heap_unset 0 =
      Some \<lparr>g_ref = 1, g_ch = ex_key, g_width = 0, g_type = GLYPH_NONE\<rparr>"
    by (simp add: glyph_at_def ex_heap_unset_def)
  have set: "kmscon_glyph_set (Some 0) (Some ex_font) ex_heap_unset =
     (Inr (), \<lparr>glyphs = [Some \<lparr>g_ref = 1, g_ch = ex_key, g_width = 8,
                               g_type = GLYPH_STR 1 [65] 13\<rparr>], allocs = []\<rparr>)"
    by (simp add: kmscon_glyph_set_def at pango_layout_new_def pango_layout_set_text_def
        pango_glyph_string_copy_def kmscon_glyph_reset_def glyph_upd_def glyph_at_def
        ex_heap_unset_def ex_font_def ex_ctx_def ex_key_def PANGO_PIXELS_def
        PANGO_PIXELS_CEIL_def)
  have L: "ctx_shape (f_ctx ex_font) [65] =
      ctx_shape (f_ctx ex_font)
        (take (c_len (g_ch \<lparr>g_ref = 1, g_ch = ex_key, g_width = 0, g_type = GLYPH_NONE\<rparr>))
           (c_buf (g_ch \<lparr>g_ref = 1, g_ch = ex_key, g_width = 0, g_type = GLYPH_NONE\<rparr>)))"
    by (simp add: ex_key_def)
  have w: "sint (lay_extents_width (ctx_shape (f_ctx ex_font) [65])) + 512 < 2 ^ 31"
    by (simp add: ex_font_def ex_ctx_def)
  have b: "sint (lay_baseline (ctx_shape (f_ctx ex_font) [65])) + 1023 < 2 ^ 31"
    by (simp add: ex_font_def ex_ctx_def)
  from kmscon_glyph_set_variant [OF at set L w b] at set w b show ?thesis
    by (simp add: glyph_at_def ex_font_def ex_ctx_def)
qed

text \<open>
  C4, as the code has it. When \<^verbatim>\<open>pango_layout_new\<close> yields no layout,
  \<^verbatim>\<open>kmscon_glyph_set\<close> returns \<^verbatim>\<open>-EINVAL\<close>, the code of InvalidArgument, and
  leaves the heap as it is.
\<close>

theorem kmscon_glyph_set_no_layout:
  assumes "glyph_at h p = Some g" and "pango_layout_new (f_ctx f) = None"
  shows "kmscon_glyph_set (Some p) (Some f) h = (Inl (errno_of InvalidArgument), h)"
  using assms by (simp add: kmscon_glyph_set_def)

theorem kmscon_glyph_set_no_layout_witness:
  "glyph_at ex_heap_unset 0 =
     Some \<lparr>g_ref = 1, g_ch = ex_key, g_width = 0, g_type = GLYPH_NONE\<rparr> \<and>
   pango_layout_new (f_ctx ex_font_no_layout) = None \<and>
   kmscon_glyph_set (Some 0) (Some ex_font_no_layout) ex_heap_unset = (Inl EINVAL, ex_heap_unset)"
proof -
  have at: "glyph_at ex_heap_unset 0 =
      Some \<lparr>g_ref = 1, g_ch = ex_key, g_width = 0, g_type = GLYPH_NONE\<rparr>"
    by (simp add: glyph_at_def ex_heap_unset_def)
  have no: "pango_layout_new (f_ctx ex_font_no_layout) = None"
    by (simp add: pango_layout_new_def ex_font_no_layout_def ex_font_def ex_ctx_def)
  from kmscon_glyph_set_no_layout [OF at no] at no show ?thesis by simp
qed

text \<open>
  The claim C4 itself fails: with a context that yields no layout the
  return code is not the code of ShapingFailure.
\<close>

theorem kmscon_glyph_set_no_layout_counterexample:
  "pango_layout_new (f_ctx ex_font_no_layout) = None \<and>
   fst (kmscon_glyph_set (Some 0) (Some ex_font_no_layout) ex_heap_unset) \<noteq>
     Inl (errno_of ShapingFailure)"
  by (simp add: kmscon_glyph_set_def pango_layout_new_def glyph_at_def ex_heap_unset_def
      ex_font_no_layout_def ex_font_def ex_ctx_def)

lemma kmscon_font_draw_Inr:
  assumes "kmscon_font_lookup (Some f) (Some c) True h = (Inr p, font1, h1)"
    and "glyph_at h1 p = Some g"
  shows "kmscon_font_draw (Some f) (Some c) (Some cr) x y h =
     (Inr (), font1, Some (snd (draw_dispatch g cr x y)), kmscon_glyph_unref (Some p) h1)"
  using assms by (simp add: kmscon_font_draw_def split: prod.splits)

subsection \<open>Lookup and draw with an empty key\<close>

lemma kmscon_char_dup_empty:
  assumes "c_len k = 0"
  shows "kmscon_char_dup True (Some k) a =
     (if dup_allocs_ok a
      then (Inr \<lparr>c_buf = replicate (if c_size k = 0 then KMSCON_CHAR_SIZE else c_size k) 0,
                 c_size = (if c_size k = 0 then KMSCON_CHAR_SIZE else c_size k), c_len = 0\<rparr>,
            snd (malloc (snd (malloc a))))
      else (Inl ENOMEM,
            if fst (malloc a) then snd (malloc (snd (malloc a))) else snd (malloc a)))"
  using assms
  by (auto simp: kmscon_char_dup_def new_char_def kmscon_char_set_u8_def memcpy_def
      dup_allocs_ok_def Let_def split: prod.splits bool.splits)

lemma kmscon_font_lookup_empty:
  assumes "font_ok f h" and "c_len key = 0"
  shows "kmscon_font_lookup (Some f) (Some key) True h =
     (Inl (if dup_allocs_ok (allocs h) then EINVAL else ENOMEM), Some f,
      h\<lparr>allocs := snd (kmscon_char_dup True (Some key) (allocs h))\<rparr>)"
proof -
  from assms(1) have "list_all (entry_ok h) (f_glyphs f)" by (simp add: font_ok_def)
  then have miss: "g_hash_table_lookup (f_glyphs f) key = None"
    using assms(2) by (rule g_hash_table_lookup_empty_key)
  show ?thesis
    by (simp add: kmscon_font_lookup_def miss kmscon_char_dup_empty [OF assms(2)]
        kmscon_glyph_new_empty [OF assms(2)])
qed

text \<open>
  C5, as the code has it. For a font in a state that the code maintains and
  an empty key, \<^verbatim>\<open>kmscon_font_lookup\<close> and \<^verbatim>\<open>kmscon_font_draw\<close> fail and return
  the font with its table, and the glyphs, as they were. The code duplicates
  the key before \<^verbatim>\<open>kmscon_glyph_new\<close> checks its length: the failure is
  InvalidArgument when the two allocations of the duplicate are satisfied,
  and OutOfMemory when one of them is refused. A draw without a cairo
  context fails with InvalidArgument before any allocation.
\<close>

theorem kmscon_font_lookup_empty_key:
  assumes "font_ok f h" and "c_len key = 0"
  shows "\<exists>a'.
     kmscon_font_lookup (Some f) (Some key) True h =
       (Inl (if dup_allocs_ok (allocs h) then errno_of InvalidArgument
             else errno_of OutOfMemory), Some f, h\<lparr>allocs := a'\<rparr>) \<and>
     kmscon_font_draw (Some f) (Some key) (Some cr) x y h =
       (Inl (if dup_allocs_ok (allocs h) then errno_of InvalidArgument
             else errno_of OutOfMemory), Some f, Some cr, h\<lparr>allocs := a'\<rparr>) \<and>
     kmscon_font_draw (Some f) (Some key) None x y h =
       (Inl (errno_of InvalidArgument), Some f, None, h)"
proof -
  let ?a = "snd (kmscon_char_dup True (Some key) (allocs h))"
  let ?e = "if dup_allocs_ok (allocs h) then errno_of InvalidArgument else errno_of OutOfMemory"
  have look: "kmscon_font_lookup (Some f) (Some key) True h = (Inl ?e, Some f, h\<lparr>allocs := ?a\<rparr>)"
    using kmscon_font_lookup_empty [OF assms] by simp
  have "kmscon_font_draw (Some f) (Some key) (Some cr) x y h =
       (Inl ?e, Some f, Some cr, h\<lparr>allocs := ?a\<rparr>)"
    by (simp add: kmscon_font_draw_def look)
  moreover have "kmscon_font_draw (Some f) (Some key) None x y h =
       (Inl (errno_of InvalidArgument), Some f, None, h)"
    by (simp add: kmscon_font_draw_def)
  ultimately show ?thesis
    using look by (intro exI [of _ ?a]) simp
qed

theorem kmscon_font_lookup_empty_key_witness:
  "font_ok ex_font_A ex_heap_A \<and> c_len ex_empty = 0 \<and> dup_allocs_ok (allocs ex_heap_A) \<and>
   (\<exists>a'. kmscon_font_lookup (Some ex_font_A) (Some ex_empty) True ex_heap_A =
           (Inl EINVAL, Some ex_font_A, ex_heap_A\<lparr>allocs := a'\<rparr>) \<and>
         kmscon_font_draw (Some ex_font_A) (Some ex_empty) (Some []) 3 4 ex_heap_A =
           (Inl EINVAL, Some ex_font_A, Some [], ex_heap_A\<lparr>allocs := a'\<rparr>))"
proof -
  have ok: "font_ok ex_font_A ex_heap_A"
    by (simp add: font_ok_def entry_ok_def char_ok_def glyph_at_def
        ex_font_A_def ex_font_def ex_heap_A_def ex_key_def)
  have len: "c_len ex_empty = 0" by (simp add: ex_empty_def)
  have al: "dup_allocs_ok (allocs ex_heap_A)" by (simp add: dup_allocs_ok_def ex_heap_A_def)
  from kmscon_font_lookup_empty_key [OF ok len, of "[]" 3 4] ok len al
  show ?thesis by auto
qed

text \<open>
  The claim C5 itself fails when the first allocation of the duplicate is
  refused: the lookup and the draw of the empty key return \<^verbatim>\<open>-ENOMEM\<close>, not
  the code of InvalidArgument. The table stays as it is.
\<close>

theorem kmscon_font_lookup_empty_key_counterexample:
  "font_ok ex_font_A (ex_heap_A\<lparr>allocs := [False]\<rparr>) \<and> c_len ex_empty = 0 \<and>
   kmscon_font_lookup (Some ex_font_A) (Some ex_empty) True (ex_heap_A\<lparr>allocs := [False]\<rparr>) =
     (Inl ENOMEM, Some ex_font_A, ex_heap_A) \<and>
   kmscon_font_draw (Some ex_font_A) (Some ex_empty) (Some []) 3 4
       (ex_heap_A\<lparr>allocs := [False]\<rparr>) =
     (Inl ENOMEM, Some ex_font_A, Some [], ex_heap_A) \<and>
   ENOMEM \<noteq> errno_of InvalidArgument"
proof -
  have ok: "font_ok ex_font_A (ex_heap_A\<lparr>allocs := [False]\<rparr>)"
    by (simp add: font_ok_def entry_ok_def char_ok_def glyph_at_def
        ex_font_A_def ex_font_def ex_heap_A_def ex_key_def)
  have len: "c_len ex_empty = 0" by (simp add: ex_empty_def)
  have miss: "g_hash_table_lookup (f_glyphs ex_font_A) ex_empty = None"
    by (simp add: ex_font_A_def ex_font_def kmscon_char_equal_def ex_key_def ex_empty_def)
  have dup: "kmscon_char_dup True (Some ex_empty) [False] = (Inl ENOMEM, [])"
    by (simp add: kmscon_char_dup_def new_char_def)
  have h: "ex_heap_A\<lparr>allocs := []\<rparr> = ex_heap_A" by (simp add: ex_heap_A_def)
  have look: "kmscon_font_lookup (Some ex_font_A) (Some ex_empty) True
      (ex_heap_A\<lparr>allocs := [False]\<rparr>) = (Inl ENOMEM, Some ex_font_A, ex_heap_A)"
    by (simp add: kmscon_font_lookup_def miss dup h)
  have draw: "kmscon_font_draw (Some ex_font_A) (Some ex_empty) (Some []) 3 4
      (ex_heap_A\<lparr>allocs := [False]\<rparr>) = (Inl ENOMEM, Some ex_font_A, Some [], ex_heap_A)"
    by (simp add: kmscon_font_draw_def look)
  from ok len look draw show ?thesis by simp
qed

subsection \<open>References held by the table and by the caller\<close>

lemma entry_ok_at:
  "list_all (entry_ok h) t \<Longrightarrow> q \<in> set (map snd t) \<Longrightarrow>
   \<exists>g. glyph_at h q = Some g \<and> 0 < g_ref g \<and> g_type g \<noteq> GLYPH_NONE"
  by (induction t) (auto simp: entry_ok_def split: option.splits)

lemma kmscon_font_lookup_again:
  assumes all: "list_all (entry_ok h) t"
    and keys: "char_ok key" "char_ok key2" "kmscon_char_equal key key2"
    and found: "g_hash_table_lookup t key = Some p"
    and at: "glyph_at h p = Some g"
    and f: "f_glyphs f = t"
  shows "\<exists>h2 g2. kmscon_font_lookup (Some f) (Some key2) True h = (Inr p, Some f, h2) \<and>
           glyph_at h2 p = Some g2 \<and> g_ref g2 = g_ref g + 1"
proof -
  from keys have "content key = content key2"
    by (simp add: kmscon_char_equal_content)
  from g_hash_table_lookup_content [OF all keys(1,2) this] found
  have "g_hash_table_lookup (f_glyphs f) key2 = Some p" by (simp add: f)
  from kmscon_font_lookup_hit [OF this, of h] at show ?thesis
    by (simp add: glyph_at_ref)
qed

text \<open>
  C7. A successful \<^verbatim>\<open>kmscon_font_lookup\<close> on a font in a state that the code
  maintains returns a live glyph to which exactly one entry of the table
  points. On a miss (the key is not in the table before) the glyph is new
  and its count is 2; on a hit the count is one more than before. The font
  stays in such a state, and a further lookup with any constructed key that
  \<^verbatim>\<open>kmscon_char_equal\<close> accepts (equal content, maybe another buffer) returns
  the same address, leaves the table as it is and adds one to the count.
\<close>

theorem kmscon_font_lookup_refs:
  assumes ok: "font_ok f h" and k: "char_ok key"
    and res: "kmscon_font_lookup (Some f) (Some key) True h = (Inr p, font', h')"
  shows "\<exists>f' g'. font' = Some f' \<and> glyph_at h' p = Some g' \<and>
     length (filter (\<lambda>e. snd e = p) (f_glyphs f')) = 1 \<and>
     (case g_hash_table_lookup (f_glyphs f) key of
        None \<Rightarrow> glyph_at h p = None \<and> g_ref g' = 2
      | Some q \<Rightarrow> q = p \<and> f' = f \<and> (\<exists>g. glyph_at h p = Some g \<and> g_ref g' = g_ref g + 1)) \<and>
     font_ok f' h' \<and>
     (\<forall>key2. char_ok key2 \<and> kmscon_char_equal key key2 \<longrightarrow>
        (\<exists>h2 g2. kmscon_font_lookup (Some f') (Some key2) True h' = (Inr p, Some f', h2) \<and>
           glyph_at h2 p = Some g2 \<and> g_ref g2 = g_ref g' + 1))"
proof -
  from kmscon_font_lookup_font_ok [OF ok k res] obtain f' where
    f': "font' = Some f'" and ok': "font_ok f' h'" by blast
  from ok have all: "list_all (entry_ok h) (f_glyphs f)" and dist: "distinct (map snd (f_glyphs f))"
    by (simp_all add: font_ok_def)
  from ok' have all': "list_all (entry_ok h') (f_glyphs f')"
    and dist': "distinct (map snd (f_glyphs f'))"
    by (simp_all add: font_ok_def)
  show ?thesis
  proof (cases "g_hash_table_lookup (f_glyphs f) key")
    case (Some q)
    from res kmscon_font_lookup_hit [OF Some, of h] f'
    have eq: "p = q" "f' = f" "h' = kmscon_glyph_ref (Some q) h" by auto
    from g_hash_table_lookup_Some [OF Some] have mem: "p \<in> set (map snd (f_glyphs f))"
      by (simp add: eq)
    from entry_ok_at [OF all mem] obtain g where g: "glyph_at h p = Some g" by blast
    have at': "glyph_at h' p = Some (g\<lparr>g_ref := g_ref g + 1\<rparr>)"
      by (simp add: eq(3) eq(1) [symmetric] glyph_at_ref g)
    have one: "length (filter (\<lambda>e. snd e = p) (f_glyphs f')) = 1"
      using filter_snd_distinct [OF dist mem] by (simp add: eq)
    have again: "\<forall>key2. char_ok key2 \<and> kmscon_char_equal key key2 \<longrightarrow>
        (\<exists>h2 g2. kmscon_font_lookup (Some f') (Some key2) True h' = (Inr p, Some f', h2) \<and>
           glyph_at h2 p = Some g2 \<and> g_ref g2 = g_ref (g\<lparr>g_ref := g_ref g + 1\<rparr>) + 1)"
    proof (intro allI impI)
      fix key2 assume "char_ok key2 \<and> kmscon_char_equal key key2"
      then have k2: "char_ok key2" "kmscon_char_equal key key2" by simp_all
      have found: "g_hash_table_lookup (f_glyphs f') key = Some p"
        using Some by (simp add: eq)
      from kmscon_font_lookup_again [OF all' k k2 found at' refl]
      show "\<exists>h2 g2. kmscon_font_lookup (Some f') (Some key2) True h' = (Inr p, Some f', h2) \<and>
           glyph_at h2 p = Some g2 \<and> g_ref g2 = g_ref (g\<lparr>g_ref := g_ref g + 1\<rparr>) + 1" .
    qed
    have "case g_hash_table_lookup (f_glyphs f) key of
        None \<Rightarrow> glyph_at h p = None \<and> g_ref (g\<lparr>g_ref := g_ref g + 1\<rparr>) = 2
      | Some q \<Rightarrow> q = p \<and> f' = f \<and>
          (\<exists>g0. glyph_at h p = Some g0 \<and> g_ref (g\<lparr>g_ref := g_ref g + 1\<rparr>) = g_ref g0 + 1)"
      using Some g by (simp add: eq)
    with f' at' one ok' again show ?thesis by blast
  next
    case None
    from kmscon_font_lookup_miss [OF None k res] f' obtain ch g' where
      ch: "char_ok ch" "content ch = content key" "c_len ch \<noteq> 0" and
      tab: "f' = f\<lparr>f_glyphs := g_hash_table_insert (f_glyphs f) ch p\<rparr>" and
      p: "p = length (glyphs h)" and
      g': "glyph_at h' p = Some g'" "g_ref g' = 2"
      by auto
    from g_hash_table_lookup_content [OF all ch(1) k ch(2)] None
    have "g_hash_table_lookup (f_glyphs f) ch = None" by simp
    then have ins: "g_hash_table_insert (f_glyphs f) ch p = f_glyphs f @ [(ch, p)]"
      by (rule g_hash_table_insert_miss)
    have tab': "f_glyphs f' = f_glyphs f @ [(ch, p)]" by (simp add: tab ins)
    have one: "length (filter (\<lambda>e. snd e = p) (f_glyphs f')) = 1"
      by (rule filter_snd_distinct [OF dist']) (simp add: tab')
    have none: "glyph_at h p = None" by (simp add: glyph_at_def p)
    have again: "\<forall>key2. char_ok key2 \<and> kmscon_char_equal key key2 \<longrightarrow>
        (\<exists>h2 g2. kmscon_font_lookup (Some f') (Some key2) True h' = (Inr p, Some f', h2) \<and>
           glyph_at h2 p = Some g2 \<and> g_ref g2 = g_ref g' + 1)"
    proof (intro allI impI)
      fix key2 assume "char_ok key2 \<and> kmscon_char_equal key key2"
      then have k2: "char_ok key2" "kmscon_char_equal key key2" by simp_all
      have "kmscon_char_equal ch key" using ch k by (simp add: kmscon_char_equal_content)
      then have found: "g_hash_table_lookup (f_glyphs f') key = Some p"
        using None by (simp add: tab' g_hash_table_lookup_append)
      from kmscon_font_lookup_again [OF all' k k2 found g'(1) refl]
      show "\<exists>h2 g2. kmscon_font_lookup (Some f') (Some key2) True h' = (Inr p, Some f', h2) \<and>
           glyph_at h2 p = Some g2 \<and> g_ref g2 = g_ref g' + 1" .
    qed
    have "case g_hash_table_lookup (f_glyphs f) key of
        None \<Rightarrow> glyph_at h p = None \<and> g_ref g' = 2
      | Some q \<Rightarrow> q = p \<and> f' = f \<and> (\<exists>g0. glyph_at h p = Some g0 \<and> g_ref g' = g_ref g0 + 1)"
      using None none g'(2) by simp
    with f' g'(1) one ok' again show ?thesis by blast
  qed
qed

theorem kmscon_font_lookup_refs_witness:
  "font_ok ex_font ex_heap \<and> char_ok ex_key \<and>
   kmscon_font_lookup (Some ex_font) (Some ex_key) True ex_heap =
     (Inr 0, Some ex_font_A, ex_heap_A) \<and>
   map_option g_ref (glyph_at ex_heap_A 0) = Some 2 \<and>
   length (filter (\<lambda>e. snd e = 0) (f_glyphs ex_font_A)) = 1 \<and>
   font_ok ex_font_A ex_heap_A \<and>
   char_ok ex_key2 \<and> kmscon_char_equal ex_key ex_key2 \<and>
   (\<exists>h2 g2. kmscon_font_lookup (Some ex_font_A) (Some ex_key2) True ex_heap_A =
               (Inr 0, Some ex_font_A, h2) \<and>
            glyph_at h2 0 = Some g2 \<and> g_ref g2 = 3)"
proof -
  have ok: "font_ok ex_font ex_heap" by (simp add: font_ok_def ex_font_def)
  have k: "char_ok ex_key" by (simp add: char_ok_def ex_key_def)
  have k2: "char_ok ex_key2" "kmscon_char_equal ex_key ex_key2"
    by (simp_all add: char_ok_def kmscon_char_equal_def ex_key_def ex_key2_def)
  have dup: "kmscon_char_dup True (Some ex_key) [] = (Inr ex_key, [])"
    by (simp add: kmscon_char_dup_def new_char_def kmscon_char_set_u8_def memcpy_def
        ex_key_def) (simp add: numeral_eq_Suc)
  have new: "kmscon_glyph_new True (Some ex_key) ex_heap = (Inr 0, ex_heap_unset)"
    by (simp add: kmscon_glyph_new_def dup ex_heap_def ex_heap_unset_def)
      (simp add: ex_key_def)
  have set: "kmscon_glyph_set (Some 0) (Some ex_font) ex_heap_unset =
     (Inr (), \<lparr>glyphs = [Some \<lparr>g_ref = 1, g_ch = ex_key, g_width = 8,
                               g_type = GLYPH_STR 1 [65] 13\<rparr>], allocs = []\<rparr>)"
    by (simp add: kmscon_glyph_set_def pango_layout_new_def pango_layout_set_text_def
        pango_glyph_string_copy_def kmscon_glyph_reset_def glyph_upd_def glyph_at_def
        ex_heap_unset_def ex_font_def ex_ctx_def ex_key_def PANGO_PIXELS_def
        PANGO_PIXELS_CEIL_def)
  have a: "allocs ex_heap = []" and h0: "ex_heap\<lparr>allocs := []\<rparr> = ex_heap"
    by (simp_all add: ex_heap_def)
  have miss: "g_hash_table_lookup (f_glyphs ex_font) ex_key = None"
    by (simp add: ex_font_def)
  have ref: "kmscon_glyph_ref (Some 0)
       \<lparr>glyphs = [Some \<lparr>g_ref = Suc 0, g_ch = ex_key, g_width = 8,
                         g_type = GLYPH_STR (Suc 0) [65] 13\<rparr>], allocs = []\<rparr> = ex_heap_A"
    by (simp add: kmscon_glyph_ref_def glyph_upd_def glyph_at_def ex_heap_A_def)
  have ins: "ex_font\<lparr>f_glyphs := g_hash_table_insert (f_glyphs ex_font) ex_key 0\<rparr> = ex_font_A"
    by (simp add: ex_font_def ex_font_A_def)
  have look: "kmscon_font_lookup (Some ex_font) (Some ex_key) True ex_heap =
     (Inr 0, Some ex_font_A, ex_heap_A)"
    by (simp add: kmscon_font_lookup_def miss a dup h0 new set ref ins)
  from kmscon_font_lookup_refs [OF ok k look] k2
  obtain g' h2 g2 where
    "glyph_at ex_heap_A 0 = Some g'" "g_ref g' = 2"
    "length (filter (\<lambda>e. snd e = 0) (f_glyphs ex_font_A)) = 1"
    "font_ok ex_font_A ex_heap_A"
    "kmscon_font_lookup (Some ex_font_A) (Some ex_key2) True ex_heap_A =
       (Inr 0, Some ex_font_A, h2)"
    "glyph_at h2 0 = Some g2" "g_ref g2 = g_ref g' + 1"
    by (auto simp: ex_font_def split: option.splits)
  with ok k k2 look show ?thesis by auto
qed

subsection \<open>Drawing a glyph\<close>

lemma kmscon_font_lookup_shared:
  assumes ok: "font_ok f h" and k: "char_ok key"
    and res: "kmscon_font_lookup (Some f) (Some key) True h = (Inr p, font', h')"
  shows "\<exists>g'. glyph_at h' p = Some g' \<and> 1 < g_ref g' \<and> g_type g' \<noteq> GLYPH_NONE"
proof (cases "g_hash_table_lookup (f_glyphs f) key")
  case None
  from kmscon_font_lookup_miss [OF None k res] obtain g' where
    "glyph_at h' p = Some g'" "g_ref g' = 2" "g_type g' \<noteq> GLYPH_NONE" by blast
  then show ?thesis by simp
next
  case (Some q)
  from res kmscon_font_lookup_hit [OF Some, of h]
  have eq: "p = q" "h' = kmscon_glyph_ref (Some q) h" by auto
  from ok have all: "list_all (entry_ok h) (f_glyphs f)" by (simp add: font_ok_def)
  from entry_ok_at [OF all g_hash_table_lookup_Some [OF Some]] obtain g where
    "glyph_at h q = Some g" "0 < g_ref g" "g_type g \<noteq> GLYPH_NONE" by blast
  then show ?thesis by (simp add: eq glyph_at_ref)
qed


lemma kmscon_font_draw_font_ok:
  assumes ok: "font_ok f h" and k: "char_ok key"
    and res: "kmscon_font_draw (Some f) (Some key) (Some cr) x y h = (r, font', dcr', h')"
  shows "\<exists>f'. font' = Some f' \<and> font_ok f' h'"
proof -
  obtain r1 font1 h1 where look: "kmscon_font_lookup (Some f) (Some key) True h = (r1, font1, h1)"
    by (cases "kmscon_font_lookup (Some f) (Some key) True h")
  show ?thesis
  proof (cases r1)
    case (Inl e)
    from res look Inl have "font' = font1" "h' = h1"
      by (simp_all add: kmscon_font_draw_def)
    with kmscon_font_lookup_error_font_ok [OF ok look [unfolded Inl]]
    show ?thesis by simp
  next
    case (Inr p)
    from kmscon_font_lookup_shared [OF ok k look [unfolded Inr]] obtain g where
      g: "glyph_at h1 p = Some g" "1 < g_ref g" by blast
    from kmscon_font_lookup_font_ok [OF ok k look [unfolded Inr]] obtain f1 where
      f1: "font1 = Some f1" "font_ok f1 h1" by blast
    from kmscon_glyph_unref_font_ok [OF f1(2) g] have "font_ok f1 (kmscon_glyph_unref (Some p) h1)"
      by simp
    moreover from res look Inr g(1) have "font' = font1" "h' = kmscon_glyph_unref (Some p) h1"
      by (simp_all add: kmscon_font_draw_def split: prod.splits)
    ultimately show ?thesis by (simp add: f1(1))
  qed
qed




text \<open>
  The default branch itself, on a state that is not one the code maintains
  (the table of \<open>ex_font_A\<close> over \<open>ex_heap_unset\<close> points to a glyph that was
  never shaped): the \<^verbatim>\<open>switch\<close> sets \<^verbatim>\<open>ret\<close> to \<^verbatim>\<open>-EFAULT\<close>, and the function ends
  with \<^verbatim>\<open>return 0\<close>, so the value of \<^verbatim>\<open>ret\<close> is not what it returns; the
  reference is released there too.
\<close>

lemma kmscon_font_draw_default_branch:
  "\<not> font_ok ex_font_A ex_heap_unset \<and>
   kmscon_font_lookup (Some ex_font_A) (Some ex_key) True ex_heap_unset =
     (Inr 0, Some ex_font_A, kmscon_glyph_ref (Some 0) ex_heap_unset) \<and>
   map_option g_type (glyph_at (kmscon_glyph_ref (Some 0) ex_heap_unset) 0) = Some GLYPH_NONE \<and>
   draw_dispatch \<lparr>g_ref = 2, g_ch = ex_key, g_width = 0, g_type = GLYPH_NONE\<rparr> [] 3 4 =
     (Inl EFAULT, []) \<and>
   kmscon_font_draw (Some ex_font_A) (Some ex_key) (Some []) 3 4 ex_heap_unset =
     (Inr (), Some ex_font_A, Some [], ex_heap_unset)"
proof -
  have no: "\<not> font_ok ex_font_A ex_heap_unset"
    by (simp add: font_ok_def entry_ok_def glyph_at_def ex_font_A_def ex_font_def
        ex_heap_unset_def)
  have eq: "kmscon_char_equal ex_key ex_key"
    by (simp add: kmscon_char_equal_def ex_key_def)
  have look: "kmscon_font_lookup (Some ex_font_A) (Some ex_key) True ex_heap_unset =
     (Inr 0, Some ex_font_A, kmscon_glyph_ref (Some 0) ex_heap_unset)"
    by (rule kmscon_font_lookup_hit) (simp add: ex_font_A_def eq)
  have at: "glyph_at ex_heap_unset 0 =
      Some \<lparr>g_ref = 1, g_ch = ex_key, g_width = 0, g_type = GLYPH_NONE\<rparr>"
    by (simp add: glyph_at_def ex_heap_unset_def)
  have at1: "glyph_at (kmscon_glyph_ref (Some 0) ex_heap_unset) 0 =
      Some \<lparr>g_ref = 2, g_ch = ex_key, g_width = 0, g_type = GLYPH_NONE\<rparr>"
    by (simp add: glyph_at_ref at)
  have disp: "draw_dispatch \<lparr>g_ref = 2, g_ch = ex_key, g_width = 0, g_type = GLYPH_NONE\<rparr> [] 3 4 =
     (Inl EFAULT, [])"
    by (simp add: draw_dispatch_def)
  have un: "kmscon_glyph_unref (Some 0) (kmscon_glyph_ref (Some 0) ex_heap_unset) = ex_heap_unset"
    by (rule kmscon_glyph_unref_ref [OF at]) simp
  from kmscon_font_draw_Inr [OF look at1, of "[]" 3 4] no look at1 disp un
  show ?thesis by simp
qed

subsection \<open>The width measurement\<close>

lemma measure_loop_width0:
  "measure_loop i num (w0 + w) ch font h =
     (case measure_loop i num w ch font h of
        (num', w', rest) \<Rightarrow> (num', w0 + w', rest))"
proof (induction i num w ch font h rule: measure_loop.induct)
  case (1 i num width ch font h)
  show ?case
  proof (cases "i < 127")
    case False
    then show ?thesis by (simp add: measure_loop.simps [of i])
  next
    case True
    have L: "measure_loop i num (w0 + width) ch font h =
        (case kmscon_char_set_u8 ch [of_nat i] 1 (allocs h) of
           (Inl e, ch1, a1) \<Rightarrow>
             measure_loop (Suc i) num (w0 + width) ch1 font (h\<lparr>allocs := a1\<rparr>)
         | (Inr u, ch1, a1) \<Rightarrow>
             (case kmscon_font_lookup font ch1 True (h\<lparr>allocs := a1\<rparr>) of
                (Inl e, font1, h1) \<Rightarrow> measure_loop (Suc i) num (w0 + width) ch1 font1 h1
              | (Inr p, font1, h1) \<Rightarrow>
                  (case glyph_at h1 p of
                     None \<Rightarrow> measure_loop (Suc i) num (w0 + width) ch1 font1 h1
                   | Some g \<Rightarrow>
                       if 0 < g_width g
                       then measure_loop (Suc i) (num + 1) (w0 + width + g_width g) ch1 font1
                              (kmscon_glyph_unref (Some p) h1)
                       else measure_loop (Suc i) num (w0 + width) ch1 font1
                              (kmscon_glyph_unref (Some p) h1))))"
      using True by (subst measure_loop.simps) simp
    have R: "measure_loop i num width ch font h =
        (case kmscon_char_set_u8 ch [of_nat i] 1 (allocs h) of
           (Inl e, ch1, a1) \<Rightarrow>
             measure_loop (Suc i) num width ch1 font (h\<lparr>allocs := a1\<rparr>)
         | (Inr u, ch1, a1) \<Rightarrow>
             (case kmscon_font_lookup font ch1 True (h\<lparr>allocs := a1\<rparr>) of
                (Inl e, font1, h1) \<Rightarrow> measure_loop (Suc i) num width ch1 font1 h1
              | (Inr p, font1, h1) \<Rightarrow>
                  (case glyph_at h1 p of
                     None \<Rightarrow> measure_loop (Suc i) num width ch1 font1 h1
                   | Some g \<Rightarrow>
                       if 0 < g_width g
                       then measure_loop (Suc i) (num + 1) (width + g_width g) ch1 font1
                              (kmscon_glyph_unref (Some p) h1)
                       else measure_loop (Suc i) num width ch1 font1
                              (kmscon_glyph_unref (Some p) h1))))"
      using True by (subst measure_loop.simps) simp
    show ?thesis
      unfolding L R using True
      by (auto simp: 1 add.assoc split: prod.splits sum.splits option.splits)
  qed
qed

lemma kmscon_char_dup_all:
  assumes "char_ok k"
  shows "\<exists>d. kmscon_char_dup True (Some k) [] = (Inr d, [])"
proof -
  have "c_len k \<le> (if c_size k = 0 then KMSCON_CHAR_SIZE else c_size k)"
    using assms by (simp add: char_ok_def)
  then show ?thesis
    by (simp add: kmscon_char_dup_def new_char_def kmscon_char_set_u8_def Let_def)
qed

lemma kmscon_glyph_set_all:
  assumes "glyph_at h p = Some g" and "ctx_layout_new (f_ctx f)" and "allocs h = []"
  shows "\<exists>h'. kmscon_glyph_set (Some p) (Some f) h = (Inr (), h') \<and> allocs h' = []"
  using assms
  by (simp add: kmscon_glyph_set_def pango_layout_new_def pango_glyph_string_copy_def
      kmscon_glyph_reset_def allocs_glyph_upd Let_def
      split: option.splits list.splits)

lemma kmscon_glyph_set_width:
  assumes at: "glyph_at h p = Some g"
    and set: "kmscon_glyph_set (Some p) (Some f) h = (Inr u, h')"
  shows "\<exists>g'. glyph_at h' p = Some g' \<and> g_ref g' = g_ref g \<and>
           g_width g' = PANGO_PIXELS
             (lay_extents_width (ctx_shape (f_ctx f) (content (g_ch g))))"
proof -
  from glyph_at_SomeD [OF at] have p: "p < length (glyphs h)" by simp
  from kmscon_glyph_set_Inr [OF at set] obtain T where
    "glyphs h' = (glyphs h)[p := Some (g\<lparr>g_type := T, g_width := PANGO_PIXELS
             (lay_extents_width (ctx_shape (f_ctx f) (content (g_ch g))))\<rparr>)]"
    by (rule that)
  with p show ?thesis by (simp add: glyph_at_def)
qed

lemma kmscon_font_lookup_new:
  assumes ok: "font_ok f h" and k: "char_ok k" "c_len k \<noteq> 0"
    and al: "allocs h = []" and lay: "ctx_layout_new (f_ctx f)"
    and miss: "g_hash_table_lookup (f_glyphs f) k = None"
  shows "\<exists>ch g' h'.
     kmscon_font_lookup (Some f) (Some k) True h =
       (Inr (length (glyphs h)),
        Some (f\<lparr>f_glyphs := f_glyphs f @ [(ch, length (glyphs h))]\<rparr>), h') \<and>
     content ch = content k \<and> allocs h' = [] \<and>
     font_ok (f\<lparr>f_glyphs := f_glyphs f @ [(ch, length (glyphs h))]\<rparr>) h' \<and>
     glyph_at h' (length (glyphs h)) = Some g' \<and> g_ref g' = 2 \<and>
     g_width g' = PANGO_PIXELS
       (lay_extents_width (ctx_shape (f_ctx f) (content k)))"
proof -
  let ?p = "length (glyphs h)"
  have h0: "h\<lparr>allocs := []\<rparr> = h" using al by simp
  from kmscon_char_dup_all [OF k(1)] obtain ch where
    dup: "kmscon_char_dup True (Some k) [] = (Inr ch, [])" by blast
  from kmscon_char_dup_Inr [OF k(1) dup]
  have ch: "char_ok ch" "content ch = content k" "c_len ch = c_len k" by simp_all
  let ?g0 = "\<lparr>g_ref = 1, g_ch = ch, g_width = 0, g_type = GLYPH_NONE\<rparr>"
  let ?h2 = "h\<lparr>glyphs := glyphs h @ [Some ?g0], allocs := []\<rparr>"
  have new: "kmscon_glyph_new True (Some k) h = (Inr ?p, ?h2)"
    using k(2) by (simp add: kmscon_glyph_new_def al dup)
  have at2: "glyph_at ?h2 ?p = Some ?g0" by (simp add: glyph_at_def)
  from kmscon_glyph_set_all [OF at2 lay] obtain h3 where
    set: "kmscon_glyph_set (Some ?p) (Some f) ?h2 = (Inr (), h3)" and al3: "allocs h3 = []"
    by auto
  let ?f' = "f\<lparr>f_glyphs := g_hash_table_insert (f_glyphs f) ch ?p\<rparr>"
  let ?h' = "kmscon_glyph_ref (Some ?p) h3"
  have look: "kmscon_font_lookup (Some f) (Some k) True h = (Inr ?p, Some ?f', ?h')"
    using set by (simp add: kmscon_font_lookup_def miss al dup h0 new)
  from ok have all: "list_all (entry_ok h) (f_glyphs f)" by (simp add: font_ok_def)
  from g_hash_table_lookup_content [OF all ch(1) k(1) ch(2)] miss
  have "g_hash_table_lookup (f_glyphs f) ch = None" by simp
  then have ins: "g_hash_table_insert (f_glyphs f) ch ?p = f_glyphs f @ [(ch, ?p)]"
    by (rule g_hash_table_insert_miss)
  from kmscon_font_lookup_font_ok [OF ok k(1) look]
  have ok': "font_ok ?f' ?h'" by simp
  from kmscon_glyph_set_width [OF at2 set] obtain g3 where
    at3: "glyph_at h3 ?p = Some g3" and g3: "g_ref g3 = 1"
      "g_width g3 = PANGO_PIXELS
         (lay_extents_width (ctx_shape (f_ctx f) (content ch)))"
    by auto
  have at': "glyph_at ?h' ?p = Some (g3\<lparr>g_ref := g_ref g3 + 1\<rparr>)"
    by (simp add: glyph_at_ref at3)
  have al': "allocs ?h' = []"
    by (simp add: kmscon_glyph_ref_def allocs_glyph_upd al3)
  have "kmscon_font_lookup (Some f) (Some k) True h =
       (Inr ?p, Some (f\<lparr>f_glyphs := f_glyphs f @ [(ch, ?p)]\<rparr>), ?h') \<and>
     content ch = content k \<and> allocs ?h' = [] \<and>
     font_ok (f\<lparr>f_glyphs := f_glyphs f @ [(ch, ?p)]\<rparr>) ?h' \<and>
     glyph_at ?h' ?p = Some (g3\<lparr>g_ref := g_ref g3 + 1\<rparr>) \<and>
     g_ref (g3\<lparr>g_ref := g_ref g3 + 1\<rparr>) = 2 \<and>
     g_width (g3\<lparr>g_ref := g_ref g3 + 1\<rparr>) = PANGO_PIXELS
       (lay_extents_width (ctx_shape (f_ctx f) (content k)))"
    using look ok' at' al' ch(2) g3 by (simp add: ins)
  then show ?thesis by blast
qed

lemma byte_of_nat_inj:
  assumes "i < 256" "j < 256" "(of_nat i :: byte) = of_nat j"
  shows "i = j"
proof -
  from assms(3) have "unat (of_nat i :: byte) = unat (of_nat j :: byte)" by simp
  with assms(1,2) show ?thesis by (simp add: unat_of_nat)
qed

lemma probed_miss:
  assumes "probed i t" and "list_all (entry_ok h) t" and "char_ok k"
    and "content k = [of_nat i]" and "i < 256"
  shows "g_hash_table_lookup t k = None"
  using assms(1,2)
proof (induction t)
  case Nil
  then show ?case by simp
next
  case (Cons e t)
  obtain k' p where e: "e = (k', p)" by (cases e)
  from Cons.prems e obtain j where j: "j < i" "content k' = [of_nat j]" and k': "char_ok k'"
    by (auto simp: probed_def entry_ok_def)
  have "of_nat j \<noteq> (of_nat i :: byte)"
    using byte_of_nat_inj [of j i] j(1) assms(5) by auto
  then have "\<not> kmscon_char_equal k' k"
    using k' assms(3,4) j(2) by (simp add: kmscon_char_equal_content)
  moreover have "g_hash_table_lookup t k = None"
    using Cons by (simp add: probed_def)
  ultimately show ?case by (simp add: e)
qed

lemma probed_append:
  "probed i t \<Longrightarrow> content c = [of_nat i] \<Longrightarrow> probed (Suc i) (t @ [(c, p)])"
  by (auto simp: probed_def list_all_iff intro: less_SucI)

lemma kmscon_char_set_u8_probe:
  assumes "char_ok ch" and "1 \<le> c_size ch"
  shows "\<exists>ch1. kmscon_char_set_u8 (Some ch) [b] 1 a = (Inr (), Some ch1, a) \<and>
           char_ok ch1 \<and> c_size ch1 = c_size ch \<and> content ch1 = [b] \<and> c_len ch1 = 1"
  using assms
  by (simp add: kmscon_char_set_u8_def char_ok_def content_def memcpy_def)

lemma probe_widths_step:
  "i < 127 \<Longrightarrow>
   probe_widths ctx i =
     (if 0 < probe_width ctx i then [probe_width ctx i] else []) @ probe_widths ctx (Suc i)"
  by (simp add: probe_widths_def upt_conv_Cons)

lemma measure_loop_step:
  assumes i: "i < 127" and ok: "font_ok f h" and pr: "probed i (f_glyphs f)"
    and al: "allocs h = []" and lay: "ctx_layout_new (f_ctx f)"
    and ch: "char_ok ch" "1 \<le> c_size ch"
  shows "\<exists>ch1 f1 h1. measure_loop i num w (Some ch) (Some f) h =
           measure_loop (Suc i)
             (if 0 < probe_width (f_ctx f) i then num + 1 else num)
             (if 0 < probe_width (f_ctx f) i then w + probe_width (f_ctx f) i else w)
             (Some ch1) (Some f1) h1 \<and>
           font_ok f1 h1 \<and> probed (Suc i) (f_glyphs f1) \<and> allocs h1 = [] \<and>
           f_ctx f1 = f_ctx f \<and> char_ok ch1 \<and> 1 \<le> c_size ch1"
proof -
  have h0: "h\<lparr>allocs := []\<rparr> = h" using al by simp
  from kmscon_char_set_u8_probe [OF ch, of "of_nat i" "[]"] obtain ch1 where
    set: "kmscon_char_set_u8 (Some ch) [of_nat i] 1 [] = (Inr (), Some ch1, [])" and
    ch1: "char_ok ch1" "c_size ch1 = c_size ch" "content ch1 = [of_nat i]" "c_len ch1 = 1"
    by blast
  from ok have all: "list_all (entry_ok h) (f_glyphs f)" by (simp add: font_ok_def)
  from i have "i < 256" by simp
  from probed_miss [OF pr all ch1(1) ch1(3) this]
  have miss: "g_hash_table_lookup (f_glyphs f) ch1 = None" .
  have len: "c_len ch1 \<noteq> 0" using ch1(4) by simp
  from kmscon_font_lookup_new [OF ok ch1(1) len al lay miss]
  obtain c g' h1 where
    look: "kmscon_font_lookup (Some f) (Some ch1) True h =
       (Inr (length (glyphs h)),
        Some (f\<lparr>f_glyphs := f_glyphs f @ [(c, length (glyphs h))]\<rparr>), h1)" and
    c: "content c = content ch1" and al1: "allocs h1 = []" and
    ok1: "font_ok (f\<lparr>f_glyphs := f_glyphs f @ [(c, length (glyphs h))]\<rparr>) h1" and
    g': "glyph_at h1 (length (glyphs h)) = Some g'" "g_ref g' = 2"
      "g_width g' = PANGO_PIXELS
         (lay_extents_width (ctx_shape (f_ctx f) (content ch1)))"
    by blast
  let ?f1 = "f\<lparr>f_glyphs := f_glyphs f @ [(c, length (glyphs h))]\<rparr>"
  let ?h2 = "kmscon_glyph_unref (Some (length (glyphs h))) h1"
  have w: "g_width g' = probe_width (f_ctx f) i"
    by (simp add: g'(3) ch1(3) probe_width_def)
  have "1 < g_ref g'" by (simp add: g'(2))
  from kmscon_glyph_unref_font_ok [OF ok1 g'(1) this] al1
  have ok2: "font_ok ?f1 ?h2" and al2: "allocs ?h2 = []" by simp_all
  have pr1: "probed (Suc i) (f_glyphs ?f1)"
    using probed_append [OF pr, of c "length (glyphs h)"] c ch1(3) by simp
  have "measure_loop i num w (Some ch) (Some f) h =
      measure_loop (Suc i)
        (if 0 < probe_width (f_ctx f) i then num + 1 else num)
        (if 0 < probe_width (f_ctx f) i then w + probe_width (f_ctx f) i else w)
        (Some ch1) (Some ?f1) ?h2"
    using i set by (subst measure_loop.simps) (simp add: al h0 look g'(1) w)
  with ok2 pr1 al2 ch1(1,2) ch(2) show ?thesis
    by (intro exI [of _ ch1] exI [of _ ?f1] exI [of _ ?h2]) simp
qed

lemma measure_loop_probes:
  assumes "i \<le> 127" and "font_ok f h" and "probed i (f_glyphs f)"
    and "allocs h = []" and "ctx_layout_new (f_ctx f)"
    and "char_ok ch" and "1 \<le> c_size ch"
  shows "\<exists>ch' f' h'. measure_loop i num w (Some ch) (Some f) h =
           (num + of_nat (length (probe_widths (f_ctx f) i)),
            w + sum_list (probe_widths (f_ctx f) i), Some ch', Some f', h')"
  using assms
proof (induction "127 - i" arbitrary: i num w ch f h)
  case 0
  then have i: "i = 127" by simp
  show ?case
    by (subst measure_loop.simps) (simp add: i probe_widths_def)
next
  case (Suc n)
  then have i: "i < 127" by simp
  from measure_loop_step [OF i Suc.prems(2-7), of num w] obtain ch1 f1 h1 where
    step: "measure_loop i num w (Some ch) (Some f) h =
           measure_loop (Suc i)
             (if 0 < probe_width (f_ctx f) i then num + 1 else num)
             (if 0 < probe_width (f_ctx f) i then w + probe_width (f_ctx f) i else w)
             (Some ch1) (Some f1) h1" and
    inv: "font_ok f1 h1" "probed (Suc i) (f_glyphs f1)" "allocs h1 = []"
      "char_ok ch1" "1 \<le> c_size ch1" and
    ctx: "f_ctx f1 = f_ctx f"
    by blast
  have n: "n = 127 - Suc i" using Suc.hyps(2) by simp
  have le: "Suc i \<le> 127" using i by simp
  have lay1: "ctx_layout_new (f_ctx f1)" using Suc.prems(5) ctx by simp
  from Suc.hyps(1) [OF n le inv(1,2,3) lay1 inv(4,5)]
  have IH: "\<And>num w. \<exists>ch' f' h'. measure_loop (Suc i) num w (Some ch1) (Some f1) h1 =
           (num + of_nat (length (probe_widths (f_ctx f) (Suc i))),
            w + sum_list (probe_widths (f_ctx f) (Suc i)), Some ch', Some f', h')"
    by (simp add: ctx)
  show ?case
  proof (cases "0 < probe_width (f_ctx f) i")
    case True
    from IH [of "num + 1" "w + probe_width (f_ctx f) i"] True
    show ?thesis
      by (simp add: step probe_widths_step [OF i] add.assoc)
  next
    case False
    from IH [of num w] False
    show ?thesis
      by (simp add: step probe_widths_step [OF i])
  qed
qed

lemma length_probe_widths: "length (probe_widths ctx i) \<le> 127"
proof -
  have "length (probe_widths ctx i) \<le> length (map (probe_width ctx) [i..<127])"
    unfolding probe_widths_def by (rule length_filter_le)
  then show ?thesis by simp
qed

lemma measure_width_new_font:
  assumes tab: "f_glyphs f = []" and al: "allocs h = []" and lay: "ctx_layout_new (f_ctx f)"
    and some: "probe_widths (f_ctx f) 0 \<noteq> []"
  shows "\<exists>f' h'. measure_width (Some f) width0 h = (Inr (), Some f', h') \<and>
           f_width f' =
             (width0 + sum_list (probe_widths (f_ctx f) 0)) div
               of_nat (length (probe_widths (f_ctx f) 0))"
proof -
  let ?ch = "\<lparr>c_buf = replicate KMSCON_CHAR_SIZE 0, c_size = KMSCON_CHAR_SIZE, c_len = 0\<rparr>"
  let ?ws = "probe_widths (f_ctx f) 0"
  have new: "kmscon_char_new True [] = (Inr ?ch, [])"
    by (simp add: kmscon_char_new_def new_char_def)
  have h0: "h\<lparr>allocs := []\<rparr> = h" using al by simp
  have ok: "font_ok f h" and pr: "probed 0 (f_glyphs f)"
    by (simp_all add: font_ok_def probed_def tab)
  have ch: "char_ok ?ch" "1 \<le> c_size ?ch"
    by (simp_all add: char_ok_def KMSCON_CHAR_SIZE_def)
  from measure_loop_probes [OF _ ok pr al lay ch, of 0 width0] obtain ch' f' h' where
    loop: "measure_loop 0 0 width0 (Some ?ch) (Some f) h =
       (of_nat (length ?ws), width0 + sum_list ?ws, Some ch', Some f', h')"
    by auto
  have "length ?ws < 2 ^ 32"
    using length_probe_widths [of "f_ctx f" 0] by simp
  then have "unat (of_nat (length ?ws) :: 32 word) = length ?ws"
    by (simp add: unat_of_nat)
  with some have num: "(of_nat (length ?ws) :: 32 word) \<noteq> 0"
    by (metis length_0_conv unat_0)
  have "measure_width (Some f) width0 h =
      (Inr (), Some (f'\<lparr>f_width := (width0 + sum_list ?ws) div of_nat (length ?ws)\<rparr>), h')"
    using num by (simp add: measure_width_def al new h0 loop)
  then show ?thesis by simp
qed

text \<open>
  C2 on a new font whose 127 probe glyphs are 8 pixels wide each, with every
  allocation satisfied: when the stack holds 127 where \<^verbatim>\<open>width\<close> lives,
  \<^verbatim>\<open>measure_width\<close> stores the width 9; started from 0 it stores 8, the sum
  1016 of the widths divided by their count.
\<close>

theorem measure_width_uninitialised:
  "probe_widths ex_ctx 0 = replicate 127 8 \<and>
   sum_list (replicate 127 (8 :: 32 word)) div 127 = 8 \<and>
   (\<exists>f' h'. measure_width (Some ex_font) 127 ex_heap = (Inr (), Some f', h') \<and>
      f_width f' = 9) \<and>
   (\<exists>f' h'. measure_width (Some ex_font) 0 ex_heap = (Inr (), Some f', h') \<and>
      f_width f' = 8)"
proof -
  have w: "probe_width ex_ctx = (\<lambda>i. 8)"
    by (simp add: probe_width_def ex_ctx_def PANGO_PIXELS_def fun_eq_iff)
  have ws: "probe_widths ex_ctx 0 = replicate 127 8"
    by (simp add: probe_widths_def w map_replicate_const)
  have sum: "sum_list (replicate 127 (8 :: 32 word)) = 1016"
    by (simp add: sum_list_replicate)
  have tab: "f_glyphs ex_font = []" and lay: "ctx_layout_new (f_ctx ex_font)"
    and ctx: "f_ctx ex_font = ex_ctx"
    by (simp_all add: ex_font_def ex_ctx_def)
  have al: "allocs ex_heap = []" by (simp add: ex_heap_def)
  have some: "probe_widths (f_ctx ex_font) 0 \<noteq> []" by (simp add: ctx ws)
  from measure_width_new_font [OF tab al lay some, of 127]
  have a: "\<exists>f' h'. measure_width (Some ex_font) 127 ex_heap = (Inr (), Some f', h') \<and>
      f_width f' = 9"
    by (simp add: ctx ws sum)
  from measure_width_new_font [OF tab al lay some, of 0]
  have b: "\<exists>f' h'. measure_width (Some ex_font) 0 ex_heap = (Inr (), Some f', h') \<and>
      f_width f' = 8"
    by (simp add: ctx ws sum)
  from ws sum a b show ?thesis by simp
qed

end
